theory Spec2Isabelle
  imports
    Main
    "HOL-Library.Word"
    "HOL-Library.Sublist"
    "HOL-Library.AList"
    "HOL-Library.Multiset"
    "HOL-Library.Char_ord"
    "HOL-Library.List_Lexorder"
begin

section \<open>Child specifications (internal/c/types.go)\<close>

text \<open>
  The Go enumerations of \<^verbatim>\<open>types.go\<close> are \<^verbatim>\<open>uint32\<close> constants numbered by
  \<^verbatim>\<open>iota\<close>; each is a closed set of names here. \<^verbatim>\<open>time.Duration\<close> is an
  \<^verbatim>\<open>int64\<close> count of nanoseconds: a 64-bit word, read signed with \<open>sint\<close>.
\<close>

datatype ChildTag = Worker | Supervisor

fun ChildTag_String :: "ChildTag \<Rightarrow> string" where
  "ChildTag_String Worker = ''Worker''"
| "ChildTag_String Supervisor = ''Supervisor''"

datatype Restart = Permanent | Transient | Temporary

fun Restart_String :: "Restart \<Rightarrow> string" where
  "Restart_String Permanent = ''Permanent''"
| "Restart_String Transient = ''Transient''"
| "Restart_String Temporary = ''Temporary''"

datatype ShutdownTag = infinityT | timeoutT

type_synonym Duration = "64 word"

record Shutdown =
  tag :: ShutdownTag
  duration :: Duration

text \<open>\<^verbatim>\<open>var Inf = Shutdown{tag: infinityT}\<close>: the duration field keeps its zero value.\<close>

definition Inf_Shutdown :: Shutdown where
  "Inf_Shutdown = \<lparr>tag = infinityT, duration = 0\<rparr>"

text \<open>\<^verbatim>\<open>func Timeout(d time.Duration) Shutdown\<close>: the body only builds the struct.\<close>

definition Timeout :: "Duration \<Rightarrow> Shutdown" where
  "Timeout d = \<lparr>tag = timeoutT, duration = d\<rparr>"

section \<open>Supervisor errors and their key/value projections (cap, errors file)\<close>

subsection \<open>Go errors and values\<close>

text \<open>
  A non-nil Go \<^verbatim>\<open>error\<close> is a value of \<open>error\<close>; the interface value that may be
  \<^verbatim>\<open>nil\<close> is an \<open>error option\<close>. The constructors are the error types this file
  meets:
  \<^item> \<open>ErrorString\<close>: an \<^verbatim>\<open>errors.New\<close> value, with no \<^verbatim>\<open>Unwrap\<close> and no
    \<^verbatim>\<open>KVs\<close> method;
  \<^item> \<open>WrapError\<close>: a \<^verbatim>\<open>fmt.Errorf("...%w", err)\<close> value, whose \<^verbatim>\<open>Unwrap\<close> gives the
    wrapped error and which has no \<^verbatim>\<open>KVs\<close> method;
  \<^item> \<open>ForeignKVs\<close>: an error of a type declared outside this file that has a
    \<^verbatim>\<open>KVs\<close> method (\<^verbatim>\<open>*c.ErrorToleranceReached\<close> is one), given by the map that
    method returns;
  \<^item> the four supervisor errors of the file. The pointer \<^verbatim>\<open>*SupervisorTerminationError\<close>
    held by a start or restart error is an option of the struct, and the
    \<^verbatim>\<open>*c.ErrorToleranceReached\<close> held by a restart error, whose \<^verbatim>\<open>KVs\<close> method is not
    part of these sources, is an option of the map that method returns.

  A Go map is an association list read with \<open>map_of\<close>: the first pair of a key is its
  entry and the order of the list means nothing. A value of \<^verbatim>\<open>interface{}\<close> stored
  in a projection is a string, an error (possibly nil) or anything else.
\<close>

datatype error =
    ErrorString string
  | WrapError string error
  | ForeignKVs "(string \<times> val) list"
  | TerminationError SupervisorTerminationError
  | BuildError string "error option"
  | StartError string string "error option" "SupervisorTerminationError option"
  | RestartError string "(string \<times> val) list option" "SupervisorTerminationError option"
and SupervisorTerminationError =
    SupervisorTerminationError
      (supRuntimeName: string)
      (nodeErrMap: "(string \<times> error option) list")
      (rscCleanupErr: "error option")
and val = VString string | VError "error option" | VOther string

type_synonym KVMap = "(string \<times> val) list"

text \<open>Which error types have the method \<^verbatim>\<open>KVs() map[string]interface{}\<close>.\<close>

fun implementsErrKVs :: "error \<Rightarrow> bool" where
  "implementsErrKVs (ErrorString s) = False"
| "implementsErrKVs (WrapError s e) = False"
| "implementsErrKVs e = True"

text \<open>The method \<^verbatim>\<open>Unwrap() error\<close>, nil where the type has none.\<close>

fun Unwrap :: "error \<Rightarrow> error option" where
  "Unwrap (WrapError s e) = Some e"
| "Unwrap e = None"

text \<open>
  \<^verbatim>\<open>errors.As(err, &subTreeError)\<close> with a target of type \<^verbatim>\<open>ErrKVs\<close>: false on nil;
  otherwise the first error of the \<^verbatim>\<open>Unwrap\<close> chain that implements \<^verbatim>\<open>ErrKVs\<close>
  (\<open>errors_As_loop\<close> below is the loop of the library function).
\<close>

fun errors_As :: "error option \<Rightarrow> error option" where
  "errors_As None = None"
| "errors_As (Some (ErrorString s)) = None"
| "errors_As (Some (WrapError s e)) = errors_As (Some e)"
| "errors_As (Some e) = Some e"

subsection \<open>Strings\<close>

text \<open>\<^verbatim>\<open>strings.TrimPrefix(s, prefix)\<close>.\<close>

definition TrimPrefix :: "string \<Rightarrow> string \<Rightarrow> string" where
  "TrimPrefix s p = (if prefix p s then drop (length p) s else s)"

text \<open>
  The verb \<^verbatim>\<open>%d\<close> of \<^verbatim>\<open>fmt.Sprintf\<close> on a slice index (never negative): decimal
  digits, no leading zero. The verb \<^verbatim>\<open>%s\<close> on a string is the string, so each
  format of the file is a concatenation.
\<close>

definition digit :: "nat \<Rightarrow> char" where
  "digit d = char_of (48 + d)"

fun itoa :: "nat \<Rightarrow> string" where
  "itoa n = (if n < 10 then [digit n] else itoa (n div 10) @ [digit (n mod 10)])"

declare itoa.simps [simp del]

subsection \<open>Go maps\<close>

text \<open>
  A \<^verbatim>\<open>range\<close> loop over a Go map visits every key once, in an order the runtime
  chooses. The choice is a parameter of the model: a \<open>range_order\<close> is handed the keys
  and returns them in the order of the visit; \<open>valid_range\<close> says that it permutes
  them. Reading a missing key gives the zero value, nil for an error.
\<close>

type_synonym range_order = "string list \<Rightarrow> string list"

definition valid_range :: "range_order \<Rightarrow> bool" where
  "valid_range rng = (\<forall>ks. mset (rng ks) = mset ks)"

definition keys :: "(string \<times> 'a) list \<Rightarrow> string list" where
  "keys m = remdups (map fst m)"

definition go_range :: "range_order \<Rightarrow> (string \<times> 'a) list \<Rightarrow> (string \<times> 'a) list" where
  "go_range rng m = List.map_filter (\<lambda>k. map_option (Pair k) (map_of m k)) (rng (keys m))"

definition index_err :: "(string \<times> error option) list \<Rightarrow> string \<Rightarrow> error option" where
  "index_err m k = (case map_of m k of None \<Rightarrow> None | Some e \<Rightarrow> e)"

text \<open>The assignment \<^verbatim>\<open>acc[k] = v\<close>.\<close>

definition set_kv :: "string \<Rightarrow> val \<Rightarrow> KVMap \<Rightarrow> KVMap" where
  "set_kv k v acc = AList.update k v acc"

subsection \<open>The KVs methods\<close>

lemma errors_As_size: "errors_As oe = Some s \<Longrightarrow> \<exists>e. oe = Some e \<and> size s \<le> size e"
  by (induction oe rule: errors_As.induct) auto

lemma index_err_size:
  assumes "index_err m k = Some e"
  shows "size e < size_list (size_prod (\<lambda>_. 0) (size_option size)) m"
proof -
  from assms have "(k, Some e) \<in> set m"
    by (auto simp: index_err_def split: option.splits dest: map_of_SomeD)
  then show ?thesis
    by (induction m) auto
qed

text \<open>
  \<open>SupervisorTerminationError_KVs\<close> is the method of the termination error;
  \<open>ErrKVs_KVs\<close> is a call of \<^verbatim>\<open>KVs\<close> through the interface \<^verbatim>\<open>ErrKVs\<close>, which
  dispatches on the error's type to the methods of the build, start and restart errors
  (its equations) and of the termination error. The interface call only happens on what
  \<open>errors_As\<close> found, which implements \<^verbatim>\<open>ErrKVs\<close>; on the two error types without
  the method the function is given the empty map to be total.

  In the loop over \<open>enumerate 0 nodeNames\<close> the pair \<open>p\<close> is the index \<open>i\<close> and the
  \<open>nodeName\<close> of the Go loop; in the loops over a map the pair \<open>kv\<close> is its key and
  value.
\<close>

function (sequential)
  SupervisorTerminationError_KVs :: "range_order \<Rightarrow> SupervisorTerminationError \<Rightarrow> KVMap" and
  ErrKVs_KVs :: "range_order \<Rightarrow> error \<Rightarrow> KVMap"
where
  "SupervisorTerminationError_KVs rng (SupervisorTerminationError supName nodeErrs cleanupErr) =
    (let nodeNames = sort (rng (keys nodeErrs));
         acc = set_kv ''supervisor.name'' (VString supName) [];
         acc = fold (\<lambda>p acc.
                 (case errors_As (index_err nodeErrs (snd p)) of
                    Some subTreeError \<Rightarrow>
                      fold (\<lambda>kv acc.
                              set_kv (''supervisor.subtree.'' @ itoa (fst p) @ ''.'' @
                                      TrimPrefix (fst kv) ''supervisor.'') (snd kv) acc)
                           (go_range rng (ErrKVs_KVs rng subTreeError)) acc
                  | None \<Rightarrow>
                      set_kv (''supervisor.termination.node.'' @ itoa (fst p) @ ''.error'')
                             (VError (index_err nodeErrs (snd p)))
                        (set_kv (''supervisor.termination.node.'' @ itoa (fst p) @ ''.name'')
                                (VString (snd p)) acc)))
               (enumerate 0 nodeNames) acc
     in (case cleanupErr of
           Some e \<Rightarrow> set_kv ''supervisor.termination.cleanup.error'' (VError (Some e)) acc
         | None \<Rightarrow> acc))"
| "ErrKVs_KVs rng (TerminationError t) = SupervisorTerminationError_KVs rng t"
| "ErrKVs_KVs rng (BuildError supName buildNodesErr) =
     set_kv ''supervisor.build.error'' (VError buildNodesErr)
       (set_kv ''supervisor.name'' (VString supName) [])"
| "ErrKVs_KVs rng (StartError supName nodeName nodeErr terminationErr) =
    (let acc = set_kv ''supervisor.name'' (VString supName) [];
         acc = (if nodeErr \<noteq> None then
                 (case errors_As nodeErr of
                    Some subTreeError \<Rightarrow>
                      fold (\<lambda>kv acc.
                              set_kv (''supervisor.subtree.'' @ TrimPrefix (fst kv) ''supervisor.'')
                                     (snd kv) acc)
                           (go_range rng (ErrKVs_KVs rng subTreeError)) acc
                  | None \<Rightarrow>
                      set_kv ''supervisor.start.node.error'' (VError nodeErr)
                        (set_kv ''supervisor.start.node.name'' (VString nodeName) acc))
               else acc)
     in (case terminationErr of
           Some t \<Rightarrow> fold (\<lambda>kv acc. set_kv (fst kv) (snd kv) acc)
                      (go_range rng (SupervisorTerminationError_KVs rng t)) acc
         | None \<Rightarrow> acc))"
| "ErrKVs_KVs rng (RestartError supName nodeErr terminationErr) =
    (let acc = set_kv ''supervisor.name'' (VString supName) [];
         acc = (case nodeErr of
                  Some toleranceKVs \<Rightarrow>
                    fold (\<lambda>kv acc. set_kv (''supervisor.restart.'' @ fst kv) (snd kv) acc)
                         (go_range rng toleranceKVs) acc
                | None \<Rightarrow> acc)
     in (case terminationErr of
           Some t \<Rightarrow> fold (\<lambda>kv acc. set_kv (fst kv) (snd kv) acc)
                      (go_range rng (SupervisorTerminationError_KVs rng t)) acc
         | None \<Rightarrow> acc))"
| "ErrKVs_KVs rng (ForeignKVs kvs) = kvs"
| "ErrKVs_KVs rng (ErrorString s) = []"
| "ErrKVs_KVs rng (WrapError s e) = []"
  by pat_completeness auto
termination
  by (relation "measure (\<lambda>x. case x of Inl (r, t) \<Rightarrow> size t | Inr (r, e) \<Rightarrow> size e)")
     (auto dest!: errors_As_size index_err_size)

text \<open>The methods of the start and restart errors, by their fields.\<close>

definition SupervisorStartError_KVs ::
  "range_order \<Rightarrow> string \<Rightarrow> string \<Rightarrow> error option \<Rightarrow> SupervisorTerminationError option \<Rightarrow> KVMap" where
  "SupervisorStartError_KVs rng supName nodeName nodeErr terminationErr =
     ErrKVs_KVs rng (StartError supName nodeName nodeErr terminationErr)"

definition SupervisorRestartError_KVs ::
  "range_order \<Rightarrow> string \<Rightarrow> KVMap option \<Rightarrow> SupervisorTerminationError option \<Rightarrow> KVMap" where
  "SupervisorRestartError_KVs rng supName nodeErr terminationErr =
     ErrKVs_KVs rng (RestartError supName nodeErr terminationErr)"

text \<open>
  One iteration of the loop over the sorted node names, named for the proofs: the body of
  \<^verbatim>\<open>for i, nodeName := range nodeNames\<close> as it stands in the method above.
\<close>

definition node_step ::
  "range_order \<Rightarrow> (string \<times> error option) list \<Rightarrow> nat \<times> string \<Rightarrow> KVMap \<Rightarrow> KVMap" where
  "node_step rng nodeErrs p acc =
     (case errors_As (index_err nodeErrs (snd p)) of
        Some subTreeError \<Rightarrow>
          fold (\<lambda>kv acc.
                  set_kv (''supervisor.subtree.'' @ itoa (fst p) @ ''.'' @
                          TrimPrefix (fst kv) ''supervisor.'') (snd kv) acc)
               (go_range rng (ErrKVs_KVs rng subTreeError)) acc
      | None \<Rightarrow>
          set_kv (''supervisor.termination.node.'' @ itoa (fst p) @ ''.error'')
                 (VError (index_err nodeErrs (snd p)))
            (set_kv (''supervisor.termination.node.'' @ itoa (fst p) @ ''.name'')
                    (VString (snd p)) acc))"

section \<open>The sabotage database and its state loop (saboteur)\<close>

text \<open>
  The declarations of \<^verbatim>\<open>sabotageDB\<close>, \<^verbatim>\<open>sabotagePlan\<close>, \<^verbatim>\<open>saboteurNode\<close> and of the
  messages are not part of the sources; the records hold the fields the loop reads and
  writes. A \<^verbatim>\<open>*saboteurNode\<close> is the name under which the node is registered in
  \<open>saboteurs\<close>, the signaler channel of a node is named after it, and the width of the
  start counter, which the sources do not give, is left unbounded. \<open>plan_maxAttempts\<close>
  is the \<^verbatim>\<open>int32\<close> that \<^verbatim>\<open>int32(msg.attempts)\<close> makes of the \<^verbatim>\<open>uint32\<close>: the same
  32 bits. A stop function that \<^verbatim>\<open>spawner.Spawn\<close> returned is a \<open>stopFn\<close>; the nil
  function value is \<open>None\<close>.
\<close>

type_synonym planName = string
type_synonym nodeName = string

datatype errSignaler = ErrSignaler nodeName

datatype stopFn = StopFn nat

record saboteurNode =
  startCount :: nat
  signaler :: errSignaler

record sabotagePlan =
  plan_name :: planName
  plan_duration :: Duration
  plan_period :: Duration
  plan_maxAttempts :: "32 word"
  plan_node :: nodeName

record sabotageDB =
  saboteurs :: "nodeName \<rightharpoonup> saboteurNode"
  plans :: "planName \<rightharpoonup> sabotagePlan"
  runningPlans :: "planName \<rightharpoonup> stopFn"

record insertSabotagePlanMsg =
  msg_name :: planName
  msg_subtreeName :: nodeName
  msg_duration :: Duration
  msg_period :: Duration
  msg_attempts :: "32 word"

text \<open>\<^verbatim>\<open>func (msg *insertSabotagePlanMsg) toPlan(node *saboteurNode) *sabotagePlan\<close>.\<close>

definition toPlan :: "insertSabotagePlanMsg \<Rightarrow> nodeName \<Rightarrow> sabotagePlan" where
  "toPlan msg n =
     \<lparr>plan_name = msg_name msg, plan_duration = msg_duration msg, plan_period = msg_period msg,
      plan_maxAttempts = msg_attempts msg, plan_node = n\<rparr>"

text \<open>
  What one iteration of \<^verbatim>\<open>for { select { ... } }\<close> receives is an \<open>event\<close>: the
  cancellation of the context, a message on one of the five channels, or the closing of
  one (\<^verbatim>\<open>ok\<close> false). What the iteration cannot decide by itself is its \<open>env\<close>:
  which case the \<^verbatim>\<open>select\<close> around a reply takes (\<open>sendWins\<close>: the send on
  \<^verbatim>\<open>ResultChan\<close>, otherwise \<^verbatim>\<open>ctx.Done()\<close>), what a call of a plan's stop function
  returns, and what \<^verbatim>\<open>spawner.Spawn\<close> returns. What it does to the outside is its
  trace of actions, in order; how it ends is its control: the loop goes on, the function
  returns, or the goroutine panics.
\<close>

datatype channel = insertPlanChan | rmPlanChan | startPlanChan | stopPlanChan | registerSignaler

datatype event =
    CtxDone
  | Closed channel
  | InsertMsg insertSabotagePlanMsg
  | RmMsg planName
  | StartMsg planName
  | StopMsg planName
  | RegisterMsg nodeName

record env =
  sendWins :: bool
  stopPlanResult :: "error option"
  spawnResult :: "error + stopFn"

datatype action =
    Reply "error option"
  | ReplySignaler errSignaler
  | CallSpawn sabotagePlan
  | CallStopPlan "stopFn option"

datatype control = Continue | Return "error option" | Panic

record outcome =
  out_db :: sabotageDB
  out_trace :: "action list"
  out_control :: control

text \<open>
  The \<^verbatim>\<open>select\<close> that ends a branch: either the action \<open>a\<close> (a send on the
  message's \<^verbatim>\<open>ResultChan\<close>) happens and the loop goes on, or the context is done and the
  function returns the error \<open>who\<close>.
\<close>

definition reply_select :: "env \<Rightarrow> sabotageDB \<Rightarrow> action list \<Rightarrow> action \<Rightarrow> string \<Rightarrow> outcome" where
  "reply_select e db tr a who =
     (if sendWins e then \<lparr>out_db = db, out_trace = tr @ [a], out_control = Continue\<rparr>
      else \<lparr>out_db = db, out_trace = tr, out_control = Return (Some (ErrorString who))\<rparr>)"

text \<open>
  The body of the loop, one \<^verbatim>\<open>case\<close> of the \<^verbatim>\<open>select\<close> per equation. In the
  branch of \<^verbatim>\<open>stopPlanChan\<close> the block \<^verbatim>\<open>if !ok { select { ... } }\<close> has no
  \<^verbatim>\<open>continue\<close>: after its reply the branch goes on to \<^verbatim>\<open>err := stopPlan()\<close> with the
  zero value that the failed map read left in \<^verbatim>\<open>stopPlan\<close>, and the call of a nil
  function panics.
\<close>

fun stateLoop_step :: "sabotageDB \<Rightarrow> env \<Rightarrow> event \<Rightarrow> outcome" where
  "stateLoop_step db e CtxDone = \<lparr>out_db = db, out_trace = [], out_control = Return None\<rparr>"
| "stateLoop_step db e (Closed c) =
     \<lparr>out_db = db, out_trace = [],
      out_control = Return (Some (ErrorString
        (case c of
           insertPlanChan \<Rightarrow> ''invalid state: sabotageDB had insertPlanChan closed''
         | rmPlanChan \<Rightarrow> ''invalid state: sabotageDB had rmPlanChan closed''
         | startPlanChan \<Rightarrow> ''invalid state: sabotageDB had startPlanChan closed''
         | stopPlanChan \<Rightarrow> ''invalid state: sabotageDB had stopPlanChan closed''
         | registerSignaler \<Rightarrow> ''invalid state: sabotageDB had registerSignaler channel closed'')))\<rparr>"
| "stateLoop_step db e (InsertMsg msg) =
     (case saboteurs db (msg_subtreeName msg) of
        None \<Rightarrow>
          reply_select e db [] (Reply (Some (ErrorString ''invalid node name: not found'')))
            ''terminated while waiting on InsertPlan result ack''
      | Some _ \<Rightarrow>
          (if plans db (msg_name msg) \<noteq> None then
             reply_select e db [] (Reply (Some (ErrorString ''plan name already registered'')))
               ''terminated while waiting on InsertPlan result ack''
           else
             reply_select e
               (db\<lparr>plans := (plans db)(msg_name msg \<mapsto> toPlan msg (msg_subtreeName msg))\<rparr>)
               [] (Reply None) ''terminated while waiting on InsertPlan result ack''))"
| "stateLoop_step db e (RmMsg n) =
     (case plans db n of
        None \<Rightarrow>
          reply_select e db [] (Reply (Some (ErrorString ''invalid plan name: not found'')))
            ''terminated while waiting on RemovePlan result ack''
      | Some _ \<Rightarrow>
          (case runningPlans db n of
             Some stopPlan \<Rightarrow>
               (case stopPlanResult e of
                  Some err \<Rightarrow>
                    reply_select e db [CallStopPlan (Some stopPlan)]
                      (Reply (Some (WrapError ''plan could not be stopped: '' err)))
                      ''terminated while waiting on RemovePlan result ack''
                | None \<Rightarrow>
                    reply_select e
                      (db\<lparr>runningPlans := (runningPlans db)(n := None),
                          plans := (plans db)(n := None)\<rparr>)
                      [CallStopPlan (Some stopPlan)] (Reply None)
                      ''terminated while waiting on InsertPlan result ack'')
           | None \<Rightarrow>
               reply_select e (db\<lparr>plans := (plans db)(n := None)\<rparr>) [] (Reply None)
                 ''terminated while waiting on InsertPlan result ack''))"
| "stateLoop_step db e (StartMsg n) =
     (case plans db n of
        None \<Rightarrow>
          reply_select e db [] (Reply (Some (ErrorString ''invalid plan name: not found'')))
            ''terminated while waiting on StartPlan result ack''
      | Some plan \<Rightarrow>
          (if runningPlans db n \<noteq> None then
             reply_select e db [] (Reply (Some (ErrorString ''plan already running'')))
               ''terminated while waiting on StartPlan result ack''
           else
             (case spawnResult e of
                Inl err \<Rightarrow>
                  reply_select e db [CallSpawn plan]
                    (Reply (Some (WrapError ''could not start plan: '' err)))
                    ''terminated while waiting on StartPlan result ack''
              | Inr stopPlanFn \<Rightarrow>
                  reply_select e (db\<lparr>runningPlans := (runningPlans db)(n \<mapsto> stopPlanFn)\<rparr>)
                    [CallSpawn plan] (Reply None)
                    ''terminated while waiting on StartPlan result ack'')))"
| "stateLoop_step db e (StopMsg n) =
     (case plans db n of
        None \<Rightarrow>
          reply_select e db [] (Reply (Some (ErrorString ''invalid plan name: not found'')))
            ''terminated while waiting on StopPlan result ack''
      | Some _ \<Rightarrow>
          (let stopPlan = runningPlans db n;
               ok = (stopPlan \<noteq> None)
           in if \<not> ok \<and> \<not> sendWins e then
                \<lparr>out_db = db, out_trace = [],
                 out_control = Return (Some (ErrorString
                   ''terminated while waiting on StopPlan result ack''))\<rparr>
              else
                (let tr = (if \<not> ok then [Reply (Some (ErrorString ''plan is not running''))]
                           else [])
                 in (case stopPlan of
                       None \<Rightarrow>
                         \<lparr>out_db = db, out_trace = tr @ [CallStopPlan None], out_control = Panic\<rparr>
                     | Some f \<Rightarrow>
                         (case stopPlanResult e of
                            Some err \<Rightarrow>
                              reply_select e db (tr @ [CallStopPlan (Some f)])
                                (Reply (Some (WrapError ''plan could not be stopped: '' err)))
                                ''terminated while waiting on StopPlan result ack''
                          | None \<Rightarrow>
                              reply_select e
                                (db\<lparr>runningPlans := (runningPlans db)(n := None)\<rparr>)
                                (tr @ [CallStopPlan (Some f)]) (Reply None)
                                ''terminated while waiting on StopPlan result ack'')))))"
| "stateLoop_step db e (RegisterMsg n) =
     (let db1 = (case saboteurs db n of
                   Some _ \<Rightarrow> db
                 | None \<Rightarrow>
                     db\<lparr>saboteurs :=
                          (saboteurs db)(n \<mapsto> \<lparr>startCount = 0, signaler = ErrSignaler n\<rparr>)\<rparr>);
          saboteur = (case saboteurs db1 n of
                        Some s \<Rightarrow> s
                      | None \<Rightarrow> \<lparr>startCount = 0, signaler = ErrSignaler n\<rparr>);
          saboteur' = saboteur\<lparr>startCount := startCount saboteur + 1\<rparr>;
          db2 = db1\<lparr>saboteurs := (saboteurs db1)(n \<mapsto> saboteur')\<rparr>
      in reply_select e db2 [] (ReplySignaler (signaler saboteur'))
           ''terminated while waiting on saboteur registration'')"

text \<open>
  The loop: iterations over the events that arrive, until one returns or panics. When the
  events are used up the loop is blocked in its \<^verbatim>\<open>select\<close>, still going.
\<close>

fun stateLoop :: "sabotageDB \<Rightarrow> (event \<times> env) list \<Rightarrow> outcome" where
  "stateLoop db [] = \<lparr>out_db = db, out_trace = [], out_control = Continue\<rparr>"
| "stateLoop db (x # rest) =
     (let r = stateLoop_step db (snd x) (fst x)
      in (case out_control r of
            Continue \<Rightarrow>
              (let r' = stateLoop (out_db r) rest
               in r'\<lparr>out_trace := out_trace r @ out_trace r'\<rparr>)
          | _ \<Rightarrow> r))"

section \<open>The restart decision\<close>

text \<open>
  Modelled from the spec: the supervisor's reaction to the notification of a terminated
  child (the code that reads \<^verbatim>\<open>GetRestart\<close> of the child's specification and decides
  whether to start it again) is not part of the sources; only the type \<open>Restart\<close> of
  \<^verbatim>\<open>types.go\<close> is. \<open>shouldRestart\<close> is the decision as the specification words it for
  a one-for-one supervisor acting on the failing child alone: a permanent child is
  always restarted, a transient one if and only if it terminated with a non-nil error, a
  temporary one never. \<open>onChildExit\<close> is what the decision does to the child's slot: a
  child that is not restarted leaves its slot inert, and an inert slot stays so.
\<close>

fun shouldRestart :: "Restart \<Rightarrow> error option \<Rightarrow> bool" where
  "shouldRestart Permanent err = True"
| "shouldRestart Transient err = (err \<noteq> None)"
| "shouldRestart Temporary err = False"

datatype slot = Live | Inert

fun onChildExit :: "Restart \<Rightarrow> slot \<Rightarrow> error option \<Rightarrow> slot" where
  "onChildExit r Inert err = Inert"
| "onChildExit r Live err = (if shouldRestart r err then Live else Inert)"

section \<open>Lemmas on maps, keys and loops\<close>

subsection \<open>Assignments and range loops\<close>

lemma map_of_set_kv: "map_of (set_kv k v acc) = (map_of acc)(k \<mapsto> v)"
  by (simp add: set_kv_def update_conv')

lemma valid_range_set: "valid_range rng \<Longrightarrow> set (rng ks) = set ks"
  unfolding valid_range_def by (metis set_mset_mset)

lemma valid_range_sort: "valid_range rng \<Longrightarrow> sort (rng ks) = sort ks"
  unfolding valid_range_def by (simp add: properties_for_sort)

lemma set_keys: "set (keys m) = fst ` set m"
  by (simp add: keys_def)

lemma set_map_filter': "set (List.map_filter g xs) = {y. \<exists>x \<in> set xs. g x = Some y}"
  by (induction xs) (auto split: option.splits)

lemma set_go_range:
  assumes "valid_range rng"
  shows "set (go_range rng m) = {(k, v). map_of m k = Some v}"
proof -
  have "set (rng (keys m)) = fst ` set m"
    using assms by (simp add: valid_range_set set_keys)
  then show ?thesis
    unfolding go_range_def set_map_filter'
    by (auto dest: map_of_SomeD) (metis fst_conv image_eqI map_of_SomeD)
qed

lemma go_range_subset: "(k, v) \<in> set (go_range rng m) \<Longrightarrow> map_of m k = Some v"
  unfolding go_range_def set_map_filter' by auto

lemma map_of_fold_set_kv:
  "map_of (fold (\<lambda>kv acc. set_kv (f (fst kv)) (snd kv) acc) es acc) K =
     (case filter (\<lambda>kv. f (fst kv) = K) es of
        [] \<Rightarrow> map_of acc K
      | x # xs \<Rightarrow> Some (snd (last (x # xs))))"
proof (induction es rule: rev_induct)
  case Nil
  then show ?case by simp
next
  case (snoc e es)
  then show ?case
    by (auto simp: map_of_set_kv split: list.splits)
qed

lemma fold_set_kv_none:
  assumes "\<forall>kv \<in> set es. f (fst kv) \<noteq> K"
  shows "map_of (fold (\<lambda>kv acc. set_kv (f (fst kv)) (snd kv) acc) es acc) K = map_of acc K"
proof -
  from assms have "filter (\<lambda>kv. f (fst kv) = K) es = []"
    by (simp add: filter_empty_conv)
  then show ?thesis by (simp add: map_of_fold_set_kv)
qed

lemma fold_set_kv_val:
  assumes "\<exists>kv \<in> set es. f (fst kv) = K"
    and "\<forall>kv \<in> set es. f (fst kv) = K \<longrightarrow> snd kv = v"
  shows "map_of (fold (\<lambda>kv acc. set_kv (f (fst kv)) (snd kv) acc) es acc) K = Some v"
proof -
  let ?fs = "filter (\<lambda>kv. f (fst kv) = K) es"
  from assms(1) have ne: "?fs \<noteq> []"
    by (simp add: filter_empty_conv)
  then have "last ?fs \<in> set ?fs" by (rule last_in_set)
  with assms(2) have "snd (last ?fs) = v" by auto
  moreover obtain x xs where "?fs = x # xs"
    using ne by (cases ?fs) auto
  ultimately show ?thesis
    by (simp add: map_of_fold_set_kv)
qed

lemma fold_set_kv_some:
  assumes "\<exists>kv \<in> set es. f (fst kv) = K"
  shows "map_of (fold (\<lambda>kv acc. set_kv (f (fst kv)) (snd kv) acc) es acc) K \<noteq> None"
proof -
  from assms have "filter (\<lambda>kv. f (fst kv) = K) es \<noteq> []"
    by (simp add: filter_empty_conv)
  then show ?thesis
    by (simp add: map_of_fold_set_kv split: list.splits)
qed

lemma fold_set_kv_mono:
  assumes "map_of acc K \<noteq> None"
  shows "map_of (fold (\<lambda>kv acc. set_kv (f (fst kv)) (snd kv) acc) es acc) K \<noteq> None"
  using assms by (simp add: map_of_fold_set_kv split: list.splits)

text \<open>The loop \<^verbatim>\<open>for k, v := range m { acc[k] = v }\<close> adds the map \<open>m\<close> over \<open>acc\<close>.\<close>

lemma map_of_merge:
  assumes "valid_range rng"
  shows "map_of (fold (\<lambda>kv acc. set_kv (fst kv) (snd kv) acc) (go_range rng m) acc) =
         map_of acc ++ map_of m"
proof
  fix K
  show "map_of (fold (\<lambda>kv acc. set_kv (fst kv) (snd kv) acc) (go_range rng m) acc) K =
        (map_of acc ++ map_of m) K"
  proof (cases "map_of m K")
    case None
    then have "\<forall>kv \<in> set (go_range rng m). fst kv \<noteq> K"
      using go_range_subset by fastforce
    then show ?thesis
      using None fold_set_kv_none [where f = "\<lambda>k. k"] by (simp add: map_add_def)
  next
    case (Some v)
    then have "(K, v) \<in> set (go_range rng m)"
      using assms by (simp add: set_go_range)
    then have a: "\<exists>kv \<in> set (go_range rng m). fst kv = K" by force
    have b: "\<forall>kv \<in> set (go_range rng m). fst kv = K \<longrightarrow> snd kv = v"
      using Some go_range_subset by fastforce
    show ?thesis
      using Some fold_set_kv_val [where f = "\<lambda>k. k", OF a b] by (simp add: map_add_def)
  qed
qed

text \<open>A re-keying loop whose new keys are distinct for distinct keys.\<close>

lemma map_of_rekey_inj:
  assumes "valid_range rng" and "inj f"
  shows "map_of (fold (\<lambda>kv acc. set_kv (f (fst kv)) (snd kv) acc) (go_range rng m) acc) (f k) =
         (case map_of m k of Some v \<Rightarrow> Some v | None \<Rightarrow> map_of acc (f k))"
proof (cases "map_of m k")
  case None
  then have "\<forall>kv \<in> set (go_range rng m). f (fst kv) \<noteq> f k"
    using go_range_subset assms(2) by (fastforce dest: injD)
  then show ?thesis
    using None by (simp add: fold_set_kv_none)
next
  case (Some v)
  then have "(k, v) \<in> set (go_range rng m)"
    using assms by (simp add: set_go_range)
  then have a: "\<exists>kv \<in> set (go_range rng m). f (fst kv) = f k" by force
  have b: "\<forall>kv \<in> set (go_range rng m). f (fst kv) = f k \<longrightarrow> snd kv = v"
    using Some go_range_subset assms(2) by (fastforce dest: injD)
  show ?thesis
    using Some fold_set_kv_val [OF a b] by simp
qed

subsection \<open>Decimal indices and the keys of the projections\<close>

lemma digit_inj: "a < 10 \<Longrightarrow> b < 10 \<Longrightarrow> digit a = digit b \<Longrightarrow> a = b"
proof -
  assume a: "a < 10" and b: "b < 10" and e: "digit a = digit b"
  from e have "of_char (char_of (48 + a)) = (of_char (char_of (48 + b)) :: nat)"
    by (simp add: digit_def)
  with a b show "a = b" by simp
qed

lemma itoa_nonempty: "itoa n \<noteq> []"
  by (subst itoa.simps) simp

lemma itoa_length_ge2: "10 \<le> n \<Longrightarrow> 2 \<le> length (itoa n)"
  using itoa_nonempty [of "n div 10"]
  by (subst itoa.simps) (cases "itoa (n div 10)"; simp)

lemma itoa_inj: "itoa i = itoa j \<Longrightarrow> i = j"
proof (induction i arbitrary: j rule: itoa.induct)
  case (1 n)
  show ?case
  proof (cases "n < 10")
    case True
    show ?thesis
    proof (cases "j < 10")
      case j: True
      from "1.prems" True j have "digit n = digit j"
        by (simp add: itoa.simps [of n] itoa.simps [of j])
      with True j show ?thesis by (rule digit_inj)
    next
      case False
      then have "2 \<le> length (itoa j)" by (simp add: itoa_length_ge2)
      moreover from True have "length (itoa n) = 1" by (simp add: itoa.simps [of n])
      ultimately show ?thesis using "1.prems" by simp
    qed
  next
    case False
    show ?thesis
    proof (cases "j < 10")
      case True
      from False have "2 \<le> length (itoa n)" by (simp add: itoa_length_ge2)
      moreover from True have "length (itoa j) = 1" by (simp add: itoa.simps [of j])
      ultimately show ?thesis using "1.prems" by simp
    next
      case j: False
      from "1.prems" False j
      have "itoa (n div 10) @ [digit (n mod 10)] = itoa (j div 10) @ [digit (j mod 10)]"
        by (simp add: itoa.simps [of n] itoa.simps [of j])
      then have q: "itoa (n div 10) = itoa (j div 10)" and d: "digit (n mod 10) = digit (j mod 10)"
        by simp_all
      from "1.IH" [OF False q] have "n div 10 = j div 10" .
      moreover from d have "n mod 10 = j mod 10" by (rule digit_inj [rotated 2]) simp_all
      ultimately show ?thesis by (metis div_mult_mod_eq)
    qed
  qed
qed

lemma itoa_eq_iff [simp]: "itoa i = itoa j \<longleftrightarrow> i = j"
  using itoa_inj by auto

lemma name_ne_error [simp]: "xs @ ''.name'' \<noteq> ys @ ''.error''"
proof
  assume "xs @ ''.name'' = ys @ ''.error''"
  then have "last (xs @ ''.name'') = last (ys @ ''.error'')" by simp
  then show False by simp
qed

lemma error_ne_name [simp]: "ys @ ''.error'' \<noteq> xs @ ''.name''"
  using name_ne_error [of xs ys] by metis

lemma errors_As_loop:
  "errors_As (Some e) = (if implementsErrKVs e then Some e else errors_As (Unwrap e))"
  by (cases e) simp_all

lemma errors_As_implements: "implementsErrKVs e \<Longrightarrow> errors_As (Some e) = Some e"
  by (cases e) simp_all

lemma errors_As_found: "errors_As oe = Some s \<Longrightarrow> implementsErrKVs s"
  by (induction oe rule: errors_As.induct) auto

lemma itoa_0: "itoa 0 = ''0''"
  by code_simp

lemma itoa_Suc_0: "itoa (Suc 0) = ''1''"
  by code_simp

subsection \<open>The loop over the nodes of a termination error\<close>

lemma SupervisorTerminationError_KVs_unfold:
  "SupervisorTerminationError_KVs rng (SupervisorTerminationError supName nodeErrs cleanupErr) =
     (let acc = fold (node_step rng nodeErrs) (enumerate 0 (sort (rng (keys nodeErrs))))
                  (set_kv ''supervisor.name'' (VString supName) [])
      in (case cleanupErr of
            Some e \<Rightarrow> set_kv ''supervisor.termination.cleanup.error'' (VError (Some e)) acc
          | None \<Rightarrow> acc))"
  by (simp add: node_step_def [abs_def] Let_def)

declare SupervisorTerminationError_KVs.simps [simp del]

text \<open>The keys an iteration over a node leaves alone.\<close>

lemma node_step_other:
  assumes "\<not> prefix ''supervisor.subtree.'' K"
    and "K \<noteq> ''supervisor.termination.node.'' @ itoa (fst p) @ ''.name''"
    and "K \<noteq> ''supervisor.termination.node.'' @ itoa (fst p) @ ''.error''"
  shows "map_of (node_step rng m p acc) K = map_of acc K"
proof (cases "errors_As (index_err m (snd p))")
  case None
  with assms show ?thesis by (simp add: node_step_def map_of_set_kv)
next
  case (Some sub)
  have "\<forall>kv \<in> set (go_range rng (ErrKVs_KVs rng sub)).
          ''supervisor.subtree.'' @ itoa (fst p) @ ''.'' @ TrimPrefix (fst kv) ''supervisor.'' \<noteq> K"
    using assms(1) by (auto simp: prefix_def)
  then show ?thesis
    using Some
    fold_set_kv_none [where f = "\<lambda>k. ''supervisor.subtree.'' @ itoa (fst p) @ ''.'' @ TrimPrefix k ''supervisor.''"]
    by (simp add: node_step_def)
qed

lemma fold_node_step_other:
  assumes "\<not> prefix ''supervisor.subtree.'' K"
    and "\<forall>p \<in> set ps. K \<noteq> ''supervisor.termination.node.'' @ itoa (fst p) @ ''.name'' \<and>
                       K \<noteq> ''supervisor.termination.node.'' @ itoa (fst p) @ ''.error''"
  shows "map_of (fold (node_step rng m) ps acc) K = map_of acc K"
  using assms(2)
proof (induction ps arbitrary: acc)
  case Nil
  then show ?case by simp
next
  case (Cons p ps)
  then show ?case using assms(1) by (simp add: node_step_other)
qed

lemma node_step_mono:
  assumes "K \<in> dom (map_of acc)"
  shows "K \<in> dom (map_of (node_step rng m p acc))"
proof (cases "errors_As (index_err m (snd p))")
  case None
  with assms show ?thesis by (auto simp: node_step_def map_of_set_kv)
next
  case (Some sub)
  from assms have "map_of acc K \<noteq> None" by auto
  from fold_set_kv_mono [OF this] Some show ?thesis
    unfolding node_step_def by (simp only: option.case domIff) 
qed

lemma fold_node_step_mono:
  assumes "K \<in> dom (map_of acc)"
  shows "K \<in> dom (map_of (fold (node_step rng m) ps acc))"
  using assms
proof (induction ps arbitrary: acc)
  case Nil
  then show ?case by simp
next
  case (Cons p ps)
  from Cons.prems have "K \<in> dom (map_of (node_step rng m p acc))" by (rule node_step_mono)
  then have "K \<in> dom (map_of (fold (node_step rng m) ps (node_step rng m p acc)))" by (rule Cons.IH)
  then show ?case by simp
qed

lemma fold_node_step_member:
  assumes "p \<in> set ps" and "\<And>acc. K \<in> dom (map_of (node_step rng m p acc))"
  shows "K \<in> dom (map_of (fold (node_step rng m) ps acc))"
  using assms(1)
proof (induction ps arbitrary: acc)
  case Nil
  then show ?case by simp
next
  case (Cons q ps)
  show ?case
  proof (cases "p = q")
    case True
    have "K \<in> dom (map_of (fold (node_step rng m) ps (node_step rng m p acc)))"
      using assms(2) by (rule fold_node_step_mono)
    with True show ?thesis by simp
  next
    case False
    with Cons.prems have "p \<in> set ps" by simp
    then have "K \<in> dom (map_of (fold (node_step rng m) ps (node_step rng m q acc)))"
      by (rule Cons.IH)
    then show ?thesis by simp
  qed
qed

text \<open>The shape of the keys an iteration over a node writes.\<close>

lemma node_step_shape:
  assumes "K \<in> dom (map_of (node_step rng m p acc))"
  shows "K \<in> dom (map_of acc) \<or> prefix ''supervisor.subtree.'' K \<or> prefix ''supervisor.termination.node.'' K"
proof (rule ccontr)
  assume n: "\<not> ?thesis"
  then have "map_of (node_step rng m p acc) K = map_of acc K"
    by (intro node_step_other) (auto simp: prefix_def)
  with assms n show False by (auto simp: domIff)
qed

lemma fold_node_step_shape:
  assumes "K \<in> dom (map_of (fold (node_step rng m) ps acc))"
  shows "K \<in> dom (map_of acc) \<or> prefix ''supervisor.subtree.'' K \<or> prefix ''supervisor.termination.node.'' K"
  using assms
proof (induction ps arbitrary: acc)
  case Nil
  then show ?case by simp
next
  case (Cons p ps)
  from Cons.prems have "K \<in> dom (map_of (fold (node_step rng m) ps (node_step rng m p acc)))"
    by simp
  from Cons.IH [OF this] node_step_shape [of K rng m p acc]
  show ?case by blast
qed

lemma SupervisorTerminationError_KVs_shape:
  assumes "K \<in> dom (map_of (SupervisorTerminationError_KVs rng t))"
  shows "K = ''supervisor.name'' \<or> prefix ''supervisor.subtree.'' K \<or> prefix ''supervisor.termination.'' K"
proof (cases t)
  case (SupervisorTerminationError n m c)
  let ?acc = "fold (node_step rng m) (enumerate 0 (sort (rng (keys m)))) (set_kv ''supervisor.name'' (VString n) [])"
  from assms SupervisorTerminationError
  have "K \<in> dom (map_of ?acc) \<or> K = ''supervisor.termination.cleanup.error''"
    by (auto simp: SupervisorTerminationError_KVs_unfold Let_def map_of_set_kv split: option.splits if_splits)
  then show ?thesis
  proof
    assume "K \<in> dom (map_of ?acc)"
    from fold_node_step_shape [OF this] show ?thesis
      by (auto simp: map_of_set_kv prefix_def split: if_splits)
  next
    assume "K = ''supervisor.termination.cleanup.error''"
    then show ?thesis by simp
  qed
qed

lemma fold_node_step_enumerate:
  assumes "i < length ns" and "errors_As (index_err m (ns ! i)) = None"
  shows "map_of (fold (node_step rng m) (enumerate a ns) acc)
           (''supervisor.termination.node.'' @ itoa (a + i) @ ''.name'') = Some (VString (ns ! i)) \<and>
         map_of (fold (node_step rng m) (enumerate a ns) acc)
           (''supervisor.termination.node.'' @ itoa (a + i) @ ''.error'') =
             Some (VError (index_err m (ns ! i)))"
proof -
  define NK where "NK = (\<lambda>i. ''supervisor.termination.node.'' @ itoa i @ ''.name'')"
  define EK where "EK = (\<lambda>i. ''supervisor.termination.node.'' @ itoa i @ ''.error'')"
  have step_NK: "map_of (node_step rng m p acc) (NK (fst p)) = Some (VString (snd p))"
    if "errors_As (index_err m (snd p)) = None" for p acc
    using that by (simp add: NK_def node_step_def map_of_set_kv)
  have step_EK: "map_of (node_step rng m p acc) (EK (fst p)) = Some (VError (index_err m (snd p)))"
    if "errors_As (index_err m (snd p)) = None" for p acc
    using that by (simp add: EK_def node_step_def map_of_set_kv)
  have other_NK: "map_of (fold (node_step rng m) ps acc) (NK j) = map_of acc (NK j)"
    if "\<forall>p \<in> set ps. fst p \<noteq> j" for ps acc j
    using that unfolding NK_def by (intro fold_node_step_other) auto
  have other_EK: "map_of (fold (node_step rng m) ps acc) (EK j) = map_of acc (EK j)"
    if "\<forall>p \<in> set ps. fst p \<noteq> j" for ps acc j
    using that unfolding EK_def by (intro fold_node_step_other) auto
  have "map_of (fold (node_step rng m) (enumerate a ns) acc) (NK (a + i)) = Some (VString (ns ! i)) \<and>
        map_of (fold (node_step rng m) (enumerate a ns) acc) (EK (a + i)) =
          Some (VError (index_err m (ns ! i)))"
    using assms
  proof (induction ns arbitrary: a i acc)
    case Nil
    then show ?case by simp
  next
    case (Cons n ns)
    show ?case
    proof (cases i)
      case 0
      have later: "\<forall>p \<in> set (enumerate (Suc a) ns). fst p \<noteq> a"
        by (auto simp: in_set_enumerate_eq)
      from Cons.prems 0 have e: "errors_As (index_err m (snd (a, n))) = None" by simp
      show ?thesis
        using 0 other_NK [OF later] other_EK [OF later] step_NK [OF e] step_EK [OF e]
        by simp
    next
      case (Suc j)
      with Cons.prems have "j < length ns" and "errors_As (index_err m (ns ! j)) = None"
        by simp_all
      from Cons.IH [OF this, of "Suc a" "node_step rng m (a, n) acc"] Suc
      show ?thesis by simp
    qed
  qed
  then show ?thesis by (simp add: NK_def EK_def)
qed

lemma sort_keys: "sort (keys m) = sorted_list_of_set (dom (map_of m))"
  by (simp add: keys_def dom_map_of_conv_image_fst sorted_list_of_set_sort_remdups
      flip: set_map)

lemma index_err_entry: "map_of m k = Some e \<Longrightarrow> index_err m k = e"
  by (simp add: index_err_def)

lemma termination_supervisor_name:
  "map_of (SupervisorTerminationError_KVs rng t) ''supervisor.name'' =
     Some (VString (supRuntimeName t))"
proof (cases t)
  case (SupervisorTerminationError n m c)
  have "map_of (fold (node_step rng m) (enumerate 0 (sort (rng (keys m))))
                  (set_kv ''supervisor.name'' (VString n) [])) ''supervisor.name'' =
        map_of (set_kv ''supervisor.name'' (VString n) []) ''supervisor.name''"
    by (intro fold_node_step_other) auto
  with SupervisorTerminationError show ?thesis
    by (simp add: SupervisorTerminationError_KVs_unfold Let_def map_of_set_kv split: option.splits)
qed

lemma termination_cleanup:
  "map_of (SupervisorTerminationError_KVs rng (SupervisorTerminationError n m c))
     ''supervisor.termination.cleanup.error'' =
     (case c of None \<Rightarrow> None | Some e \<Rightarrow> Some (VError (Some e)))"
proof -
  have "map_of (fold (node_step rng m) (enumerate 0 (sort (rng (keys m))))
                  (set_kv ''supervisor.name'' (VString n) [])) ''supervisor.termination.cleanup.error'' =
        map_of (set_kv ''supervisor.name'' (VString n) []) ''supervisor.termination.cleanup.error''"
    by (intro fold_node_step_other) auto
  then show ?thesis
    by (simp add: SupervisorTerminationError_KVs_unfold Let_def map_of_set_kv split: option.splits)
qed

lemma termination_node_entry:
  assumes "valid_range rng" and "i < length (sort (keys m))"
    and "errors_As (index_err m (sort (keys m) ! i)) = None"
  shows "map_of (SupervisorTerminationError_KVs rng (SupervisorTerminationError n m c))
           (''supervisor.termination.node.'' @ itoa i @ ''.name'') =
           Some (VString (sort (keys m) ! i)) \<and>
         map_of (SupervisorTerminationError_KVs rng (SupervisorTerminationError n m c))
           (''supervisor.termination.node.'' @ itoa i @ ''.error'') =
           Some (VError (index_err m (sort (keys m) ! i)))"
proof -
  from fold_node_step_enumerate [OF assms(2,3), of rng 0 "set_kv ''supervisor.name'' (VString n) []"]
  show ?thesis
    using assms(1)
    by (simp add: SupervisorTerminationError_KVs_unfold Let_def map_of_set_kv valid_range_sort
        split: option.splits)
qed

lemma termination_subtree_key:
  assumes "valid_range rng" and "i < length (sort (keys m))"
    and "errors_As (index_err m (sort (keys m) ! i)) = Some sub"
    and "k \<in> dom (map_of (ErrKVs_KVs rng sub))"
  shows "''supervisor.subtree.'' @ itoa i @ ''.'' @ TrimPrefix k ''supervisor.''
           \<in> dom (map_of (SupervisorTerminationError_KVs rng (SupervisorTerminationError n m c)))"
proof -
  let ?K = "''supervisor.subtree.'' @ itoa i @ ''.'' @ TrimPrefix k ''supervisor.''"
  let ?p = "(i, sort (keys m) ! i)"
  from assms(4) obtain v where v: "map_of (ErrKVs_KVs rng sub) k = Some v" by auto
  then have "(k, v) \<in> set (go_range rng (ErrKVs_KVs rng sub))"
    using assms(1) by (simp add: set_go_range)
  then have ex: "\<exists>kv \<in> set (go_range rng (ErrKVs_KVs rng sub)).
      ''supervisor.subtree.'' @ itoa i @ ''.'' @ TrimPrefix (fst kv) ''supervisor.'' = ?K"
    by force
  have step: "?K \<in> dom (map_of (node_step rng m ?p acc))" for acc
    using fold_set_kv_some [OF ex, of acc] assms(3)
    by (simp add: node_step_def domIff)
  have "?p \<in> set (enumerate 0 (sort (keys m)))"
    using assms(2) by (simp add: in_set_enumerate_eq)
  from fold_node_step_member [OF this step]
  have "?K \<in> dom (map_of (fold (node_step rng m) (enumerate 0 (sort (keys m)))
                  (set_kv ''supervisor.name'' (VString n) [])))" .
  then show ?thesis
    using assms(1)
    by (auto simp: SupervisorTerminationError_KVs_unfold Let_def map_of_set_kv valid_range_sort
        split: option.splits)
qed

subsection \<open>Start and restart errors\<close>

lemma termination_no_restart_key:
  "map_of (SupervisorTerminationError_KVs rng t) (''supervisor.restart.'' @ k) = None"
proof (rule ccontr)
  assume "\<not> ?thesis"
  then have "''supervisor.restart.'' @ k \<in> dom (map_of (SupervisorTerminationError_KVs rng t))"
    by auto
  from SupervisorTerminationError_KVs_shape [OF this] show False
    by (auto simp: prefix_def)
qed

lemma termination_no_start_key:
  assumes "prefix ''supervisor.start.node.'' K"
  shows "map_of (SupervisorTerminationError_KVs rng t) K = None"
proof (rule ccontr)
  assume "\<not> ?thesis"
  then have "K \<in> dom (map_of (SupervisorTerminationError_KVs rng t))"
    by auto
  from SupervisorTerminationError_KVs_shape [OF this] assms show False
    by (auto simp: prefix_def)
qed

lemma restart_loop:
  assumes "valid_range rng"
  shows "map_of (fold (\<lambda>kv acc. set_kv (''supervisor.restart.'' @ fst kv) (snd kv) acc)
                   (go_range rng tol) (set_kv ''supervisor.name'' (VString n) []))
           (''supervisor.restart.'' @ k) = map_of tol k"
    and "map_of (fold (\<lambda>kv acc. set_kv (''supervisor.restart.'' @ fst kv) (snd kv) acc)
                   (go_range rng tol) (set_kv ''supervisor.name'' (VString n) []))
           ''supervisor.name'' = Some (VString n)"
proof -
  have "inj (\<lambda>k. ''supervisor.restart.'' @ k)" by (simp add: inj_def)
  from map_of_rekey_inj [OF assms this, of tol _ k]
  show "map_of (fold (\<lambda>kv acc. set_kv (''supervisor.restart.'' @ fst kv) (snd kv) acc)
                   (go_range rng tol) (set_kv ''supervisor.name'' (VString n) []))
           (''supervisor.restart.'' @ k) = map_of tol k"
    by (simp add: map_of_set_kv split: option.splits)
  show "map_of (fold (\<lambda>kv acc. set_kv (''supervisor.restart.'' @ fst kv) (snd kv) acc)
                   (go_range rng tol) (set_kv ''supervisor.name'' (VString n) []))
           ''supervisor.name'' = Some (VString n)"
    using fold_set_kv_none [where f = "\<lambda>k. ''supervisor.restart.'' @ k" and K = "''supervisor.name''"]
    by (simp add: map_of_set_kv)
qed

lemma SupervisorRestartError_KVs_map:
  assumes "valid_range rng"
  shows "map_of (SupervisorRestartError_KVs rng n nodeErr terminationErr) =
     (case nodeErr of
        None \<Rightarrow> map_of (set_kv ''supervisor.name'' (VString n) [])
      | Some tol \<Rightarrow> map_of (fold (\<lambda>kv acc. set_kv (''supervisor.restart.'' @ fst kv) (snd kv) acc)
                   (go_range rng tol) (set_kv ''supervisor.name'' (VString n) []))) ++
     (case terminationErr of None \<Rightarrow> Map.empty
      | Some t \<Rightarrow> map_of (SupervisorTerminationError_KVs rng t))"
  using assms
  by (simp add: SupervisorRestartError_KVs_def Let_def map_of_merge split: option.splits)

lemma SupervisorStartError_KVs_map:
  assumes "valid_range rng"
  shows "map_of (SupervisorStartError_KVs rng n nodeName nodeErr terminationErr) =
     map_of (if nodeErr \<noteq> None then
                 (case errors_As nodeErr of
                    Some subTreeError \<Rightarrow>
                      fold (\<lambda>kv acc.
                              set_kv (''supervisor.subtree.'' @ TrimPrefix (fst kv) ''supervisor.'')
                                     (snd kv) acc)
                           (go_range rng (ErrKVs_KVs rng subTreeError))
                           (set_kv ''supervisor.name'' (VString n) [])
                  | None \<Rightarrow>
                      set_kv ''supervisor.start.node.error'' (VError nodeErr)
                        (set_kv ''supervisor.start.node.name'' (VString nodeName)
                           (set_kv ''supervisor.name'' (VString n) [])))
               else set_kv ''supervisor.name'' (VString n) []) ++
     (case terminationErr of None \<Rightarrow> Map.empty
      | Some t \<Rightarrow> map_of (SupervisorTerminationError_KVs rng t))"
  using assms
  by (simp add: SupervisorStartError_KVs_def Let_def map_of_merge split: option.splits)

subsection \<open>The values under the subtree keys\<close>

lemma digit_no_dot: "d < 10 \<Longrightarrow> digit d \<noteq> CHR ''.''"
proof
  assume d: "d < 10" and e: "digit d = CHR ''.''"
  from e have "of_char (char_of (48 + d)) = (of_char CHR ''.'' :: nat)"
    by (simp add: digit_def)
  with d show False by simp
qed

lemma itoa_no_dot: "CHR ''.'' \<notin> set (itoa n)"
proof (induction n rule: itoa.induct)
  case (1 n)
  show ?case
  proof (cases "n < 10")
    case True
    then show ?thesis using digit_no_dot [of n] by (auto simp: itoa.simps [of n])
  next
    case False
    with "1.IH" digit_no_dot [of "n mod 10"] show ?thesis
      by (auto simp: itoa.simps [of n])
  qed
qed

lemma dotted_index_inj:
  assumes "itoa i @ ''.'' @ x = itoa j @ ''.'' @ y"
  shows "i = j \<and> x = y"
proof -
  have tw: "takeWhile (\<lambda>c. c \<noteq> CHR ''.'') (itoa n @ ''.'' @ z) = itoa n" for n z
    using itoa_no_dot [of n] by (subst takeWhile_append2) auto
  from assms have "takeWhile (\<lambda>c. c \<noteq> CHR ''.'') (itoa i @ ''.'' @ x) =
                   takeWhile (\<lambda>c. c \<noteq> CHR ''.'') (itoa j @ ''.'' @ y)"
    by simp
  then have "itoa i = itoa j" by (simp only: tw)
  then have "i = j" by simp
  with assms show ?thesis by simp
qed

lemma fold_set_kv_ex:
  assumes "\<exists>kv \<in> set es. f (fst kv) = K"
  shows "\<exists>kv \<in> set es. f (fst kv) = K \<and>
           map_of (fold (\<lambda>kv acc. set_kv (f (fst kv)) (snd kv) acc) es acc) K = Some (snd kv)"
proof -
  let ?fs = "filter (\<lambda>kv. f (fst kv) = K) es"
  from assms have ne: "?fs \<noteq> []" by (simp add: filter_empty_conv)
  then have l: "last ?fs \<in> set ?fs" by (rule last_in_set)
  obtain x xs where c: "?fs = x # xs" using ne by (cases ?fs) auto
  have "map_of (fold (\<lambda>kv acc. set_kv (f (fst kv)) (snd kv) acc) es acc) K = Some (snd (last ?fs))"
    by (simp add: map_of_fold_set_kv c)
  with l show ?thesis by auto
qed

lemma fold_set_kv_dom:
  assumes "K \<in> dom (map_of (fold (\<lambda>kv acc. set_kv (f (fst kv)) (snd kv) acc) es acc))"
  shows "K \<in> dom (map_of acc) \<or> (\<exists>kv \<in> set es. f (fst kv) = K)"
proof (rule ccontr)
  assume n: "\<not> ?thesis"
  then have "\<forall>kv \<in> set es. f (fst kv) \<noteq> K" by auto
  from fold_set_kv_none [OF this, of acc] assms n show False by (auto simp: domIff)
qed

lemma TrimPrefix_inj:
  assumes "prefix p a" and "prefix p b" and "TrimPrefix a p = TrimPrefix b p"
  shows "a = b"
  using assms by (auto simp: TrimPrefix_def prefix_def)

lemma node_step_other_index:
  assumes "fst p \<noteq> i"
  shows "map_of (node_step rng m p acc) (''supervisor.subtree.'' @ itoa i @ ''.'' @ x) =
         map_of acc (''supervisor.subtree.'' @ itoa i @ ''.'' @ x)"
proof (cases "errors_As (index_err m (snd p))")
  case None
  then show ?thesis by (simp add: node_step_def map_of_set_kv)
next
  case (Some sub)
  have "\<forall>kv \<in> set (go_range rng (ErrKVs_KVs rng sub)).
          ''supervisor.subtree.'' @ itoa (fst p) @ ''.'' @ TrimPrefix (fst kv) ''supervisor.'' \<noteq>
          ''supervisor.subtree.'' @ itoa i @ ''.'' @ x"
    using assms dotted_index_inj [of "fst p" _ i x] by auto
  from fold_set_kv_none [where f = "\<lambda>k. ''supervisor.subtree.'' @ itoa (fst p) @ ''.'' @
      TrimPrefix k ''supervisor.''", OF this] Some
  show ?thesis by (simp add: node_step_def)
qed

lemma fold_node_step_other_index:
  assumes "\<forall>p \<in> set ps. fst p \<noteq> i"
  shows "map_of (fold (node_step rng m) ps acc) (''supervisor.subtree.'' @ itoa i @ ''.'' @ x) =
         map_of acc (''supervisor.subtree.'' @ itoa i @ ''.'' @ x)"
  using assms
proof (induction ps arbitrary: acc)
  case Nil
  then show ?case by simp
next
  case (Cons p ps)
  from Cons.prems have "fst p \<noteq> i" and "\<forall>p \<in> set ps. fst p \<noteq> i" by simp_all
  from Cons.IH [OF this(2), of "node_step rng m p acc"] node_step_other_index [OF this(1), of rng m acc x]
  show ?case by simp
qed

lemma fold_node_step_subtree:
  assumes "i < length ns" and "errors_As (index_err m (ns ! i)) = Some sub"
    and "\<exists>kv \<in> set (go_range rng (ErrKVs_KVs rng sub)). TrimPrefix (fst kv) ''supervisor.'' = x"
  shows "\<exists>kv \<in> set (go_range rng (ErrKVs_KVs rng sub)).
           TrimPrefix (fst kv) ''supervisor.'' = x \<and>
           map_of (fold (node_step rng m) (enumerate a ns) acc)
             (''supervisor.subtree.'' @ itoa (a + i) @ ''.'' @ x) = Some (snd kv)"
proof -
  define SK where "SK = (\<lambda>i x. ''supervisor.subtree.'' @ itoa i @ ''.'' @ x)"
  have other: "map_of (fold (node_step rng m) ps acc) (SK j x) = map_of acc (SK j x)"
    if "\<forall>p \<in> set ps. fst p \<noteq> j" for ps acc j
    using that unfolding SK_def by (rule fold_node_step_other_index)
  have step: "\<exists>kv \<in> set (go_range rng (ErrKVs_KVs rng s)).
           TrimPrefix (fst kv) ''supervisor.'' = x \<and>
           map_of (node_step rng m p acc) (SK (fst p) x) = Some (snd kv)"
    if e: "errors_As (index_err m (snd p)) = Some s"
      and ex: "\<exists>kv \<in> set (go_range rng (ErrKVs_KVs rng s)). TrimPrefix (fst kv) ''supervisor.'' = x"
    for p acc s
  proof -
    from ex have "\<exists>kv \<in> set (go_range rng (ErrKVs_KVs rng s)).
        ''supervisor.subtree.'' @ itoa (fst p) @ ''.'' @ TrimPrefix (fst kv) ''supervisor.'' = SK (fst p) x"
      by (auto simp: SK_def)
    from fold_set_kv_ex [OF this, of acc] e show ?thesis
      by (auto simp: node_step_def SK_def)
  qed
  have "\<exists>kv \<in> set (go_range rng (ErrKVs_KVs rng sub)).
           TrimPrefix (fst kv) ''supervisor.'' = x \<and>
           map_of (fold (node_step rng m) (enumerate a ns) acc) (SK (a + i) x) = Some (snd kv)"
    using assms(1,2)
  proof (induction ns arbitrary: a i acc)
    case Nil
    then show ?case by simp
  next
    case (Cons n ns)
    show ?case
    proof (cases i)
      case 0
      have later: "\<forall>p \<in> set (enumerate (Suc a) ns). fst p \<noteq> a"
        by (auto simp: in_set_enumerate_eq)
      from Cons.prems 0 have e: "errors_As (index_err m (snd (a, n))) = Some sub" by simp
      from step [OF e assms(3), of acc] other [OF later, of "node_step rng m (a, n) acc"] 0
      show ?thesis by simp
    next
      case (Suc j)
      with Cons.prems have "j < length ns" and "errors_As (index_err m (ns ! j)) = Some sub"
        by simp_all
      from Cons.IH [OF this, of "Suc a" "node_step rng m (a, n) acc"] Suc
      show ?thesis by simp
    qed
  qed
  then show ?thesis by (simp add: SK_def)
qed

lemma termination_subtree_value:
  assumes "valid_range rng" and "i < length (sort (keys m))"
    and "errors_As (index_err m (sort (keys m) ! i)) = Some sub"
    and "map_of (ErrKVs_KVs rng sub) k = Some v"
  shows "\<exists>k0 v0. map_of (ErrKVs_KVs rng sub) k0 = Some v0 \<and>
           TrimPrefix k0 ''supervisor.'' = TrimPrefix k ''supervisor.'' \<and>
           map_of (SupervisorTerminationError_KVs rng (SupervisorTerminationError n m c))
             (''supervisor.subtree.'' @ itoa i @ ''.'' @ TrimPrefix k ''supervisor.'') = Some v0"
proof -
  let ?K = "''supervisor.subtree.'' @ itoa i @ ''.'' @ TrimPrefix k ''supervisor.''"
  let ?acc = "fold (node_step rng m) (enumerate 0 (sort (keys m)))
                (set_kv ''supervisor.name'' (VString n) [])"
  from assms(4) have "(k, v) \<in> set (go_range rng (ErrKVs_KVs rng sub))"
    using assms(1) by (simp add: set_go_range)
  then have "\<exists>kv \<in> set (go_range rng (ErrKVs_KVs rng sub)).
      TrimPrefix (fst kv) ''supervisor.'' = TrimPrefix k ''supervisor.''"
    by force
  from fold_node_step_subtree [OF assms(2,3) this, of 0 "set_kv ''supervisor.name'' (VString n) []"]
  obtain kv where kv: "kv \<in> set (go_range rng (ErrKVs_KVs rng sub))"
    and t: "TrimPrefix (fst kv) ''supervisor.'' = TrimPrefix k ''supervisor.''"
    and val: "map_of ?acc ?K = Some (snd kv)"
    by auto
  from kv have m: "map_of (ErrKVs_KVs rng sub) (fst kv) = Some (snd kv)"
    using go_range_subset [of "fst kv" "snd kv"] by simp
  have "map_of (SupervisorTerminationError_KVs rng (SupervisorTerminationError n m c)) ?K =
        map_of ?acc ?K"
    using assms(1)
    by (simp add: SupervisorTerminationError_KVs_unfold Let_def map_of_set_kv valid_range_sort
        split: option.splits)
  with val m t show ?thesis by auto
qed

lemma start_subtree_value:
  assumes "valid_range rng" and "errors_As nodeErr = Some sub"
    and "map_of (ErrKVs_KVs rng sub) k = Some v"
  shows "\<exists>k0 v0. map_of (ErrKVs_KVs rng sub) k0 = Some v0 \<and>
           TrimPrefix k0 ''supervisor.'' = TrimPrefix k ''supervisor.'' \<and>
           map_of (SupervisorStartError_KVs rng n nodeName nodeErr terminationErr)
             (''supervisor.subtree.'' @ TrimPrefix k ''supervisor.'') =
             (case (case terminationErr of
                      None \<Rightarrow> None
                    | Some t \<Rightarrow> map_of (SupervisorTerminationError_KVs rng t)
                                 (''supervisor.subtree.'' @ TrimPrefix k ''supervisor.'')) of
                None \<Rightarrow> Some v0
              | Some w \<Rightarrow> Some w)"
proof -
  let ?K = "''supervisor.subtree.'' @ TrimPrefix k ''supervisor.''"
  let ?loop = "fold (\<lambda>kv acc. set_kv (''supervisor.subtree.'' @ TrimPrefix (fst kv) ''supervisor.'')
                       (snd kv) acc)
                 (go_range rng (ErrKVs_KVs rng sub)) (set_kv ''supervisor.name'' (VString n) [])"
  from assms(2) have ne: "nodeErr \<noteq> None" by (cases nodeErr) simp_all
  from assms(3) have "(k, v) \<in> set (go_range rng (ErrKVs_KVs rng sub))"
    using assms(1) by (simp add: set_go_range)
  then have "\<exists>kv \<in> set (go_range rng (ErrKVs_KVs rng sub)).
      ''supervisor.subtree.'' @ TrimPrefix (fst kv) ''supervisor.'' = ?K"
    by force
  from fold_set_kv_ex [OF this, of "set_kv ''supervisor.name'' (VString n) []"]
  obtain kv where kv: "kv \<in> set (go_range rng (ErrKVs_KVs rng sub))"
    and t: "''supervisor.subtree.'' @ TrimPrefix (fst kv) ''supervisor.'' = ?K"
    and val: "map_of ?loop ?K = Some (snd kv)"
    by auto
  from kv have m: "map_of (ErrKVs_KVs rng sub) (fst kv) = Some (snd kv)"
    using go_range_subset [of "fst kv" "snd kv"] by simp
  from t have t': "TrimPrefix (fst kv) ''supervisor.'' = TrimPrefix k ''supervisor.''" by simp
  have "map_of (SupervisorStartError_KVs rng n nodeName nodeErr terminationErr) ?K =
          (case (case terminationErr of
                      None \<Rightarrow> None
                    | Some t \<Rightarrow> map_of (SupervisorTerminationError_KVs rng t) ?K) of
                None \<Rightarrow> Some (snd kv)
              | Some w \<Rightarrow> Some w)"
    using assms(1,2) ne val
    by (simp add: SupervisorStartError_KVs_map map_add_def split: option.splits)
  with m t' show ?thesis by blast
qed

lemma supervisor_error_keys:
  assumes "valid_range rng" and "\<forall>kvs. sub \<noteq> ForeignKVs kvs"
    and "k \<in> dom (map_of (ErrKVs_KVs rng sub))"
  shows "prefix ''supervisor.'' k"
proof (cases sub)
  case (ErrorString s)
  with assms(3) show ?thesis by simp
next
  case (WrapError s e)
  with assms(3) show ?thesis by simp
next
  case (ForeignKVs kvs)
  with assms(2) show ?thesis by simp
next
  case (TerminationError t)
  with assms(3) have "k \<in> dom (map_of (SupervisorTerminationError_KVs rng t))" by simp
  from SupervisorTerminationError_KVs_shape [OF this] show ?thesis
    by (auto simp: prefix_def)
next
  case (BuildError n e)
  with assms(3) show ?thesis
    by (auto simp: map_of_set_kv split: if_splits)
next
  case (StartError n nodeName nodeErr terminationErr)
  let ?T = "(case terminationErr of None \<Rightarrow> Map.empty
      | Some t \<Rightarrow> map_of (SupervisorTerminationError_KVs rng t))"
  let ?A = "(if nodeErr \<noteq> None then
                 (case errors_As nodeErr of
                    Some subTreeError \<Rightarrow>
                      fold (\<lambda>kv acc.
                              set_kv (''supervisor.subtree.'' @ TrimPrefix (fst kv) ''supervisor.'')
                                     (snd kv) acc)
                           (go_range rng (ErrKVs_KVs rng subTreeError))
                           (set_kv ''supervisor.name'' (VString n) [])
                  | None \<Rightarrow>
                      set_kv ''supervisor.start.node.error'' (VError nodeErr)
                        (set_kv ''supervisor.start.node.name'' (VString nodeName)
                           (set_kv ''supervisor.name'' (VString n) [])))
               else set_kv ''supervisor.name'' (VString n) [])"
  from assms(3) StartError have "k \<in> dom (map_of ?A ++ ?T)"
    using SupervisorStartError_KVs_map [OF assms(1), of n nodeName nodeErr terminationErr]
    by (simp add: SupervisorStartError_KVs_def)
  then have "k \<in> dom ?T \<or> k \<in> dom (map_of ?A)" by auto
  then show ?thesis
  proof
    assume "k \<in> dom ?T"
    then obtain t where "k \<in> dom (map_of (SupervisorTerminationError_KVs rng t))"
      by (cases terminationErr) auto
    from SupervisorTerminationError_KVs_shape [OF this] show ?thesis
      by (auto simp: prefix_def)
  next
    assume a: "k \<in> dom (map_of ?A)"
    show ?thesis
    proof (cases "nodeErr \<noteq> None \<and> errors_As nodeErr \<noteq> None")
      case True
      then obtain s where s: "errors_As nodeErr = Some s" by auto
      with a True have "k \<in> dom (map_of (fold (\<lambda>kv acc.
                              set_kv (''supervisor.subtree.'' @ TrimPrefix (fst kv) ''supervisor.'')
                                     (snd kv) acc)
                           (go_range rng (ErrKVs_KVs rng s))
                           (set_kv ''supervisor.name'' (VString n) [])))"
        by simp
      from fold_set_kv_dom [OF this] show ?thesis
        by (auto simp: map_of_set_kv prefix_def split: if_splits)
    next
      case False
      with a show ?thesis
        by (auto simp: map_of_set_kv split: if_splits)
    qed
  qed
next
  case (RestartError n nodeErr terminationErr)
  let ?T = "(case terminationErr of None \<Rightarrow> Map.empty
      | Some t \<Rightarrow> map_of (SupervisorTerminationError_KVs rng t))"
  let ?A = "(case nodeErr of
        None \<Rightarrow> map_of (set_kv ''supervisor.name'' (VString n) [])
      | Some tol \<Rightarrow> map_of (fold (\<lambda>kv acc. set_kv (''supervisor.restart.'' @ fst kv) (snd kv) acc)
                   (go_range rng tol) (set_kv ''supervisor.name'' (VString n) [])))"
  from assms(3) RestartError have "k \<in> dom (?A ++ ?T)"
    using SupervisorRestartError_KVs_map [OF assms(1), of n nodeErr terminationErr]
    by (simp add: SupervisorRestartError_KVs_def)
  then have "k \<in> dom ?T \<or> k \<in> dom ?A" by auto
  then show ?thesis
  proof
    assume "k \<in> dom ?T"
    then obtain t where "k \<in> dom (map_of (SupervisorTerminationError_KVs rng t))"
      by (cases terminationErr) auto
    from SupervisorTerminationError_KVs_shape [OF this] show ?thesis
      by (auto simp: prefix_def)
  next
    assume a: "k \<in> dom ?A"
    show ?thesis
    proof (cases nodeErr)
      case None
      with a show ?thesis by (auto simp: map_of_set_kv split: if_splits)
    next
      case (Some tol)
      with a have "k \<in> dom (map_of (fold (\<lambda>kv acc. set_kv (''supervisor.restart.'' @ fst kv) (snd kv) acc)
                   (go_range rng tol) (set_kv ''supervisor.name'' (VString n) [])))"
        by simp
      from fold_set_kv_dom [OF this] show ?thesis
        by (auto simp: map_of_set_kv prefix_def split: if_splits)
    qed
  qed
qed

lemma supervisor_error_no_collision:
  assumes "valid_range rng" and "\<forall>kvs. sub \<noteq> ForeignKVs kvs"
    and "map_of (ErrKVs_KVs rng sub) k = Some v" and "map_of (ErrKVs_KVs rng sub) k0 = Some v0"
    and "TrimPrefix k0 ''supervisor.'' = TrimPrefix k ''supervisor.''"
  shows "v0 = v"
proof -
  from assms(3) have "k \<in> dom (map_of (ErrKVs_KVs rng sub))" by auto
  from supervisor_error_keys [OF assms(1,2) this] have a: "prefix ''supervisor.'' k" .
  from assms(4) have "k0 \<in> dom (map_of (ErrKVs_KVs rng sub))" by auto
  from supervisor_error_keys [OF assms(1,2) this] have b: "prefix ''supervisor.'' k0" .
  from TrimPrefix_inj [OF b a assms(5)] assms(3,4) show ?thesis by simp
qed

section \<open>Properties of the child specification types\<close>

text \<open>
  C8, as stated, at a concrete input: the claim says that every duration handed to
  \<open>Timeout\<close> is strictly positive, a non-positive one being rejected or not
  representable. \<open>Timeout\<close> builds a timeout policy from the duration zero and from the
  duration of minus five nanoseconds, and the policy holds that duration.
\<close>

theorem C8_Timeout_nonpositive_counterexample:
  "tag (Timeout 0) = timeoutT \<and> \<not> 0 < sint (duration (Timeout 0)) \<and>
   tag (Timeout (- 5)) = timeoutT \<and> sint (duration (Timeout (- 5))) = - 5"
  by (simp add: Timeout_def)

text \<open>
  C8, amended: \<open>Inf_Shutdown\<close> (the package variable \<^verbatim>\<open>Inf\<close>) carries the infinity
  tag, and for every 64-bit duration \<open>d\<close>, positive or not, \<open>Timeout d\<close> is a policy
  with the timeout tag that stores \<open>d\<close> unchanged; \<open>Timeout\<close> rejects nothing, and
  the two constructors never coincide.
\<close>

theorem C8_Timeout_stores_any_duration:
  "tag Inf_Shutdown = infinityT \<and> tag (Timeout d) = timeoutT \<and> duration (Timeout d) = d \<and>
   Timeout d \<noteq> Inf_Shutdown"
  by (simp add: Timeout_def Inf_Shutdown_def)

section \<open>Properties of the restart decision\<close>

lemma foldl_onChildExit_Inert: "foldl (onChildExit r) Inert errs = Inert"
  by (induction errs) simp_all

text \<open>
  C7: under one-for-one, for the failing child alone, the restart decision is the function
  \<open>shouldRestart\<close> of the child's restart policy and of its terminal error: a permanent
  child is restarted whatever the error, a transient child if and only if the error is
  not nil, a temporary child never; the slot of a temporary child is inert after its
  first exit and stays inert over every later notification.
\<close>

theorem C7_restart_decision:
  "shouldRestart Permanent err \<and>
   (shouldRestart Transient err \<longleftrightarrow> err \<noteq> None) \<and>
   \<not> shouldRestart Temporary err \<and>
   onChildExit Temporary Live err = Inert \<and>
   foldl (onChildExit Temporary) Live (err # errs) = Inert"
  by (simp add: foldl_onChildExit_Inert)

section \<open>Properties of the key/value projections\<close>

text \<open>
  C1, as stated, at a concrete input: the claim gives every error kind that nests a
  subtree error the keys \<open>supervisor.subtree.<i>.<k'>\<close>, with \<open>i\<close> the index of the
  node, start errors included. The start error of supervisor \<open>root\<close> whose node \<open>sub\<close>
  failed with a build error has a node error that implements \<^verbatim>\<open>ErrKVs\<close> and whose
  projection has the key \<open>supervisor.name\<close>; the keys of the start error's projection
  are listed in full, and no key carries an index: the nested name is under
  \<open>supervisor.subtree.name\<close>.
\<close>

theorem C1_start_error_counterexample:
  "implementsErrKVs (BuildError ''root/sub'' (Some (ErrorString ''boom''))) \<and>
   map_of (ErrKVs_KVs (\<lambda>ks. ks) (BuildError ''root/sub'' (Some (ErrorString ''boom''))))
     ''supervisor.name'' = Some (VString ''root/sub'') \<and>
   map fst (SupervisorStartError_KVs (\<lambda>ks. ks) ''root'' ''sub''
              (Some (BuildError ''root/sub'' (Some (ErrorString ''boom'')))) None) =
     [''supervisor.name'', ''supervisor.subtree.name'', ''supervisor.subtree.build.error'']"
proof -
  have "map fst (SupervisorStartError_KVs (\<lambda>ks. ks) ''root'' ''sub''
              (Some (BuildError ''root/sub'' (Some (ErrorString ''boom'')))) None) =
     [''supervisor.name'', ''supervisor.subtree.name'', ''supervisor.subtree.build.error'']"
    by code_simp
  moreover have "map_of (ErrKVs_KVs (\<lambda>ks. ks) (BuildError ''root/sub'' (Some (ErrorString ''boom''))))
     ''supervisor.name'' = Some (VString ''root/sub'')"
    by code_simp
  ultimately show ?thesis by simp
qed

text \<open>
  C1, amended: whatever order the range loops take, a termination error moves every entry
  \<open>(k, v)\<close> of the projection of the error that \<^verbatim>\<open>errors.As\<close> finds in the chain of
  a node's error under the key \<open>supervisor.subtree.<i>.<k'>\<close>, where \<open>k'\<close> is \<open>k\<close>
  without a leading \<open>supervisor.\<close> and \<open>i\<close> is the position of the node's name in the
  sorted list of the node names: the key holds the value of a key of the nested
  projection that strips to the same \<open>k'\<close>, and it holds \<open>v\<close> itself when the nested
  error is one of the supervisor errors of this file, none of whose keys collide. A
  start error, which holds one node and no index, moves every such entry under
  \<open>supervisor.subtree.<k'>\<close> in the same way, unless the projection of its rollback
  termination error has an entry under that very key, which is copied later and replaces
  it. A node error that itself implements \<^verbatim>\<open>ErrKVs\<close> is the error that
  \<^verbatim>\<open>errors.As\<close> finds.
\<close>

theorem C1_subtree_rekeying:
  assumes "valid_range rng"
  shows "(\<forall>i nodeName err sub k v.
            i < length (sorted_list_of_set (dom (map_of nodeErrs))) \<longrightarrow>
            sorted_list_of_set (dom (map_of nodeErrs)) ! i = nodeName \<longrightarrow>
            map_of nodeErrs nodeName = Some err \<longrightarrow> errors_As err = Some sub \<longrightarrow>
            map_of (ErrKVs_KVs rng sub) k = Some v \<longrightarrow>
            (\<exists>k0 v0. map_of (ErrKVs_KVs rng sub) k0 = Some v0 \<and>
               TrimPrefix k0 ''supervisor.'' = TrimPrefix k ''supervisor.'' \<and>
               map_of (SupervisorTerminationError_KVs rng
                         (SupervisorTerminationError supName nodeErrs cleanupErr))
                 (''supervisor.subtree.'' @ itoa i @ ''.'' @ TrimPrefix k ''supervisor.'') =
                 Some v0) \<and>
            ((\<forall>kvs. sub \<noteq> ForeignKVs kvs) \<longrightarrow>
               map_of (SupervisorTerminationError_KVs rng
                         (SupervisorTerminationError supName nodeErrs cleanupErr))
                 (''supervisor.subtree.'' @ itoa i @ ''.'' @ TrimPrefix k ''supervisor.'') =
                 Some v)) \<and>
         (\<forall>sub k v.
            errors_As nodeErr = Some sub \<longrightarrow> map_of (ErrKVs_KVs rng sub) k = Some v \<longrightarrow>
            (\<exists>k0 v0. map_of (ErrKVs_KVs rng sub) k0 = Some v0 \<and>
               TrimPrefix k0 ''supervisor.'' = TrimPrefix k ''supervisor.'' \<and>
               map_of (SupervisorStartError_KVs rng startSupName startNodeName nodeErr
                         terminationErr)
                 (''supervisor.subtree.'' @ TrimPrefix k ''supervisor.'') =
                 (case (case terminationErr of
                          None \<Rightarrow> None
                        | Some t \<Rightarrow> map_of (SupervisorTerminationError_KVs rng t)
                                     (''supervisor.subtree.'' @ TrimPrefix k ''supervisor.'')) of
                    None \<Rightarrow> Some v0
                  | Some w \<Rightarrow> Some w)) \<and>
            ((\<forall>kvs. sub \<noteq> ForeignKVs kvs) \<longrightarrow>
               map_of (SupervisorStartError_KVs rng startSupName startNodeName nodeErr
                         terminationErr)
                 (''supervisor.subtree.'' @ TrimPrefix k ''supervisor.'') =
                 (case (case terminationErr of
                          None \<Rightarrow> None
                        | Some t \<Rightarrow> map_of (SupervisorTerminationError_KVs rng t)
                                     (''supervisor.subtree.'' @ TrimPrefix k ''supervisor.'')) of
                    None \<Rightarrow> Some v
                  | Some w \<Rightarrow> Some w))) \<and>
         (\<forall>e. implementsErrKVs e \<longrightarrow> errors_As (Some e) = Some e)"
proof (intro conjI allI impI)
  fix i nodeName err sub k v
  assume i: "i < length (sorted_list_of_set (dom (map_of nodeErrs)))"
    and n: "sorted_list_of_set (dom (map_of nodeErrs)) ! i = nodeName"
    and e: "map_of nodeErrs nodeName = Some err" and a: "errors_As err = Some sub"
    and k: "map_of (ErrKVs_KVs rng sub) k = Some v"
  from i have i': "i < length (sort (keys nodeErrs))" by (simp add: sort_keys)
  from n have n': "sort (keys nodeErrs) ! i = nodeName" by (simp add: sort_keys)
  from e have "index_err nodeErrs nodeName = err" by (rule index_err_entry)
  with a n' have a': "errors_As (index_err nodeErrs (sort (keys nodeErrs) ! i)) = Some sub"
    by simp
  note ex = termination_subtree_value [OF assms i' a' k, of supName cleanupErr]
  from ex
  show "\<exists>k0 v0. map_of (ErrKVs_KVs rng sub) k0 = Some v0 \<and>
               TrimPrefix k0 ''supervisor.'' = TrimPrefix k ''supervisor.'' \<and>
               map_of (SupervisorTerminationError_KVs rng
                         (SupervisorTerminationError supName nodeErrs cleanupErr))
                 (''supervisor.subtree.'' @ itoa i @ ''.'' @ TrimPrefix k ''supervisor.'') =
                 Some v0" .
  assume own: "\<forall>kvs. sub \<noteq> ForeignKVs kvs"
  from ex obtain k0 v0 where k0: "map_of (ErrKVs_KVs rng sub) k0 = Some v0"
    and t: "TrimPrefix k0 ''supervisor.'' = TrimPrefix k ''supervisor.''"
    and val: "map_of (SupervisorTerminationError_KVs rng
                         (SupervisorTerminationError supName nodeErrs cleanupErr))
                 (''supervisor.subtree.'' @ itoa i @ ''.'' @ TrimPrefix k ''supervisor.'') =
                 Some v0"
    by blast
  from supervisor_error_no_collision [OF assms own k k0 t] val
  show "map_of (SupervisorTerminationError_KVs rng
                         (SupervisorTerminationError supName nodeErrs cleanupErr))
                 (''supervisor.subtree.'' @ itoa i @ ''.'' @ TrimPrefix k ''supervisor.'') =
                 Some v"
    by simp
next
  fix sub k v
  assume a: "errors_As nodeErr = Some sub" and k: "map_of (ErrKVs_KVs rng sub) k = Some v"
  note ex = start_subtree_value [OF assms a k, of startSupName startNodeName terminationErr]
  from ex
  show "\<exists>k0 v0. map_of (ErrKVs_KVs rng sub) k0 = Some v0 \<and>
               TrimPrefix k0 ''supervisor.'' = TrimPrefix k ''supervisor.'' \<and>
               map_of (SupervisorStartError_KVs rng startSupName startNodeName nodeErr
                         terminationErr)
                 (''supervisor.subtree.'' @ TrimPrefix k ''supervisor.'') =
                 (case (case terminationErr of
                          None \<Rightarrow> None
                        | Some t \<Rightarrow> map_of (SupervisorTerminationError_KVs rng t)
                                     (''supervisor.subtree.'' @ TrimPrefix k ''supervisor.'')) of
                    None \<Rightarrow> Some v0
                  | Some w \<Rightarrow> Some w)" .
  assume own: "\<forall>kvs. sub \<noteq> ForeignKVs kvs"
  from ex obtain k0 v0 where k0: "map_of (ErrKVs_KVs rng sub) k0 = Some v0"
    and t: "TrimPrefix k0 ''supervisor.'' = TrimPrefix k ''supervisor.''"
    and val: "map_of (SupervisorStartError_KVs rng startSupName startNodeName nodeErr
                         terminationErr)
                 (''supervisor.subtree.'' @ TrimPrefix k ''supervisor.'') =
                 (case (case terminationErr of
                          None \<Rightarrow> None
                        | Some t \<Rightarrow> map_of (SupervisorTerminationError_KVs rng t)
                                     (''supervisor.subtree.'' @ TrimPrefix k ''supervisor.'')) of
                    None \<Rightarrow> Some v0
                  | Some w \<Rightarrow> Some w)"
    by blast
  from supervisor_error_no_collision [OF assms own k k0 t] have eq: "v0 = v" .
  from val
  show "map_of (SupervisorStartError_KVs rng startSupName startNodeName nodeErr
                         terminationErr)
                 (''supervisor.subtree.'' @ TrimPrefix k ''supervisor.'') =
                 (case (case terminationErr of
                          None \<Rightarrow> None
                        | Some t \<Rightarrow> map_of (SupervisorTerminationError_KVs rng t)
                                     (''supervisor.subtree.'' @ TrimPrefix k ''supervisor.'')) of
                    None \<Rightarrow> Some v
                  | Some w \<Rightarrow> Some w)"
    unfolding eq .
next
  fix e
  assume "implementsErrKVs e"
  then show "errors_As (Some e) = Some e" by (rule errors_As_implements)
qed

theorem C1_subtree_rekeying_witness:
  "valid_range rev \<and>
   (0::nat) < length (sorted_list_of_set (dom (map_of
      [(''subsup'', Some (RestartError ''root/subsup'' (Some [(''node.name'', VString ''wfail'')]) None))]))) \<and>
   sorted_list_of_set (dom (map_of
      [(''subsup'', Some (RestartError ''root/subsup'' (Some [(''node.name'', VString ''wfail'')]) None))])) ! 0 =
     ''subsup'' \<and>
   implementsErrKVs (RestartError ''root/subsup'' (Some [(''node.name'', VString ''wfail'')]) None) \<and>
   map_of (ErrKVs_KVs rev
          (RestartError ''root/subsup'' (Some [(''node.name'', VString ''wfail'')]) None))
     ''supervisor.restart.node.name'' = Some (VString ''wfail'') \<and>
   map_of (SupervisorTerminationError_KVs rev
          (SupervisorTerminationError ''root''
             [(''subsup'', Some (RestartError ''root/subsup''
                 (Some [(''node.name'', VString ''wfail'')]) None))] None))
     ''supervisor.subtree.0.restart.node.name'' = Some (VString ''wfail'') \<and>
   errors_As (Some (WrapError ''start failed: ''
       (RestartError ''root/subsup'' (Some [(''node.name'', VString ''wfail'')]) None))) =
     Some (RestartError ''root/subsup'' (Some [(''node.name'', VString ''wfail'')]) None) \<and>
   map_of (SupervisorStartError_KVs rev ''root'' ''subsup''
          (Some (WrapError ''start failed: ''
             (RestartError ''root/subsup'' (Some [(''node.name'', VString ''wfail'')]) None)))
          None)
     ''supervisor.subtree.restart.node.name'' = Some (VString ''wfail'')"
proof -
  let ?sub = "RestartError ''root/subsup'' (Some [(''node.name'', VString ''wfail'')]) None"
  let ?m = "[(''subsup'', Some ?sub)]"
  let ?w = "WrapError ''start failed: '' ?sub"
  have v: "valid_range rev" by (simp add: valid_range_def)
  have l: "(0::nat) < length (sorted_list_of_set (dom (map_of ?m)))" by simp
  have n: "sorted_list_of_set (dom (map_of ?m)) ! 0 = ''subsup''" by simp
  have e: "map_of ?m ''subsup'' = Some (Some ?sub)" by simp
  have i: "implementsErrKVs ?sub" by simp
  have a: "errors_As (Some ?sub) = Some ?sub" by simp
  have a': "errors_As (Some ?w) = Some ?sub" by simp
  have own: "?sub \<noteq> ForeignKVs kvs" for kvs by simp
  have k: "map_of (ErrKVs_KVs rev ?sub) ''supervisor.restart.node.name'' = Some (VString ''wfail'')"
    by code_simp
  note c = C1_subtree_rekeying [OF v, where nodeErrs = ?m and nodeErr = "Some ?w" and
      supName = "''root''" and cleanupErr = None and startSupName = "''root''" and
      startNodeName = "''subsup''" and terminationErr = None]
  from c [THEN conjunct1, rule_format, OF l n e a k, THEN conjunct2, rule_format, OF own]
  have t: "map_of (SupervisorTerminationError_KVs rev (SupervisorTerminationError ''root'' ?m None))
     ''supervisor.subtree.0.restart.node.name'' = Some (VString ''wfail'')"
    by (simp add: itoa_0 TrimPrefix_def)
  from c [THEN conjunct2, THEN conjunct1, rule_format, OF a' k, THEN conjunct2, rule_format, OF own]
  have s: "map_of (SupervisorStartError_KVs rev ''root'' ''subsup'' (Some ?w) None)
     ''supervisor.subtree.restart.node.name'' = Some (VString ''wfail'')"
    by (simp add: TrimPrefix_def)
  from v l n i k t a' s show ?thesis by simp
qed

lemma restart_kvs_general:
  assumes "valid_range rng"
  shows "map_of (SupervisorRestartError_KVs rng supName nodeErr terminationErr) ''supervisor.name'' =
           Some (VString (case terminationErr of None \<Rightarrow> supName | Some t \<Rightarrow> supRuntimeName t)) \<and>
         (\<forall>toleranceKVs k. nodeErr = Some toleranceKVs \<longrightarrow>
            map_of (SupervisorRestartError_KVs rng supName nodeErr terminationErr)
              (''supervisor.restart.'' @ k) = map_of toleranceKVs k) \<and>
         (\<forall>t k v. terminationErr = Some t \<longrightarrow>
            map_of (SupervisorTerminationError_KVs rng t) k = Some v \<longrightarrow>
            map_of (SupervisorRestartError_KVs rng supName nodeErr terminationErr) k = Some v)"
proof (intro conjI allI impI)
  show "map_of (SupervisorRestartError_KVs rng supName nodeErr terminationErr) ''supervisor.name'' =
           Some (VString (case terminationErr of None \<Rightarrow> supName | Some t \<Rightarrow> supRuntimeName t))"
    using assms restart_loop(2) [OF assms]
    by (simp add: SupervisorRestartError_KVs_map map_add_def map_of_set_kv
        termination_supervisor_name split: option.splits)
next
  fix toleranceKVs k
  assume "nodeErr = Some toleranceKVs"
  then show "map_of (SupervisorRestartError_KVs rng supName nodeErr terminationErr)
              (''supervisor.restart.'' @ k) = map_of toleranceKVs k"
    using assms restart_loop(1) [OF assms, of toleranceKVs supName k]
      termination_no_restart_key [of rng _ k]
    by (simp add: SupervisorRestartError_KVs_map map_add_def split: option.splits)
next
  fix t k v
  assume "terminationErr = Some t" and "map_of (SupervisorTerminationError_KVs rng t) k = Some v"
  then show "map_of (SupervisorRestartError_KVs rng supName nodeErr terminationErr) k = Some v"
    using assms by (simp add: SupervisorRestartError_KVs_map map_add_def)
qed

text \<open>
  C4: for every restart error of a supervisor, the accompanying termination error, when
  there is one, being the teardown of that same supervisor and carrying its runtime name,
  and whatever order the range loops take: the projection maps \<open>supervisor.name\<close> to the
  supervisor runtime name; when the node error is not nil, the entry of
  \<open>supervisor.restart.<k>\<close> is, for every \<open>k\<close>, the entry of \<open>k\<close> in the projection
  of the tolerance error; and when a termination error is present, every entry of its
  projection is in the restart error's, key and value unchanged.
\<close>

theorem C4_restart_kvs:
  assumes "valid_range rng"
    and "\<forall>t. terminationErr = Some t \<longrightarrow> supRuntimeName t = supName"
  shows "map_of (SupervisorRestartError_KVs rng supName nodeErr terminationErr) ''supervisor.name'' =
           Some (VString supName) \<and>
         (\<forall>toleranceKVs k. nodeErr = Some toleranceKVs \<longrightarrow>
            map_of (SupervisorRestartError_KVs rng supName nodeErr terminationErr)
              (''supervisor.restart.'' @ k) = map_of toleranceKVs k) \<and>
         (\<forall>t k v. terminationErr = Some t \<longrightarrow>
            map_of (SupervisorTerminationError_KVs rng t) k = Some v \<longrightarrow>
            map_of (SupervisorRestartError_KVs rng supName nodeErr terminationErr) k = Some v)"
proof -
  note g = restart_kvs_general [OF assms(1), of supName nodeErr terminationErr]
  from assms(2) have "(case terminationErr of None \<Rightarrow> supName | Some t \<Rightarrow> supRuntimeName t) = supName"
    by (cases terminationErr) simp_all
  with g [THEN conjunct1]
  have "map_of (SupervisorRestartError_KVs rng supName nodeErr terminationErr) ''supervisor.name'' =
           Some (VString supName)"
    by simp
  with g [THEN conjunct2] show ?thesis by blast
qed

theorem C4_restart_kvs_witness:
  "valid_range rev \<and>
   supRuntimeName (SupervisorTerminationError ''root'' [(''w2'', Some (ErrorString ''timeout''))] None) =
     ''root'' \<and>
   map_of (SupervisorRestartError_KVs rev ''root'' (Some [(''node.name'', VString ''w1'')])
             (Some (SupervisorTerminationError ''root'' [(''w2'', Some (ErrorString ''timeout''))] None)))
     ''supervisor.name'' = Some (VString ''root'') \<and>
   map_of (SupervisorRestartError_KVs rev ''root'' (Some [(''node.name'', VString ''w1'')])
             (Some (SupervisorTerminationError ''root'' [(''w2'', Some (ErrorString ''timeout''))] None)))
     ''supervisor.restart.node.name'' = Some (VString ''w1'') \<and>
   map_of (SupervisorTerminationError_KVs rev
             (SupervisorTerminationError ''root'' [(''w2'', Some (ErrorString ''timeout''))] None))
     ''supervisor.termination.node.0.name'' = Some (VString ''w2'') \<and>
   map_of (SupervisorRestartError_KVs rev ''root'' (Some [(''node.name'', VString ''w1'')])
             (Some (SupervisorTerminationError ''root'' [(''w2'', Some (ErrorString ''timeout''))] None)))
     ''supervisor.termination.node.0.name'' = Some (VString ''w2'')"
proof -
  let ?t = "SupervisorTerminationError ''root'' [(''w2'', Some (ErrorString ''timeout''))] None"
  let ?tol = "[(''node.name'', VString ''w1'')]"
  have v: "valid_range rev" by (simp add: valid_range_def)
  have s: "supRuntimeName ?t = ''root''" by simp
  then have w: "\<forall>t. Some ?t = Some t \<longrightarrow> supRuntimeName t = ''root''" by simp
  have t: "map_of (SupervisorTerminationError_KVs rev ?t)
     ''supervisor.termination.node.0.name'' = Some (VString ''w2'')"
    by code_simp
  note c = C4_restart_kvs [OF v w, where nodeErr = "Some ?tol"]
  from c [THEN conjunct1]
  have a: "map_of (SupervisorRestartError_KVs rev ''root'' (Some ?tol) (Some ?t))
     ''supervisor.name'' = Some (VString ''root'')" .
  from c [THEN conjunct2, THEN conjunct1, rule_format, of ?tol "''node.name''"]
  have b: "map_of (SupervisorRestartError_KVs rev ''root'' (Some ?tol) (Some ?t))
     ''supervisor.restart.node.name'' = Some (VString ''w1'')"
    by simp
  from c [THEN conjunct2, THEN conjunct2, rule_format, OF refl t]
  have d: "map_of (SupervisorRestartError_KVs rev ''root'' (Some ?tol) (Some ?t))
     ''supervisor.termination.node.0.name'' = Some (VString ''w2'')" .
  from v s a b t d show ?thesis by simp
qed

text \<open>
  C5, as stated, at a concrete input: the claim gives the keys
  \<open>supervisor.start.node.name\<close> and \<open>supervisor.start.node.error\<close> to every start
  error whose node error is not nil and does not implement \<^verbatim>\<open>ErrKVs\<close>. The node
  error built by \<^verbatim>\<open>fmt.Errorf("start failed: %w", buildErr)\<close> is not nil and has no
  \<^verbatim>\<open>KVs\<close> method, but \<^verbatim>\<open>errors.As\<close> finds the build error it wraps, and the
  projection has no \<open>supervisor.start.node.name\<close>.
\<close>

theorem C5_wrapped_error_counterexample:
  "Some (WrapError ''start failed: '' (BuildError ''root/sub'' None)) \<noteq> None \<and>
   \<not> implementsErrKVs (WrapError ''start failed: '' (BuildError ''root/sub'' None)) \<and>
   errors_As (Some (WrapError ''start failed: '' (BuildError ''root/sub'' None))) =
     Some (BuildError ''root/sub'' None) \<and>
   map_of (SupervisorStartError_KVs (\<lambda>ks. ks) ''root'' ''sub''
             (Some (WrapError ''start failed: '' (BuildError ''root/sub'' None))) None)
     ''supervisor.start.node.name'' = None"
proof -
  have "map_of (SupervisorStartError_KVs (\<lambda>ks. ks) ''root'' ''sub''
             (Some (WrapError ''start failed: '' (BuildError ''root/sub'' None))) None)
     ''supervisor.start.node.name'' = None"
    by code_simp
  then show ?thesis by simp
qed

text \<open>
  C5, amended: whatever order the range loops take, the projection of a start error whose
  node error is not nil and in whose chain \<^verbatim>\<open>errors.As\<close> finds no error implementing
  \<^verbatim>\<open>ErrKVs\<close> maps \<open>supervisor.start.node.name\<close> to the name of the failing node and
  \<open>supervisor.start.node.error\<close> to the node error; when a rollback termination error
  is present, every entry of its projection is in the start error's, key and value
  unchanged; and when the node error is nil, no key that begins with
  \<open>supervisor.start.node.\<close> is present.
\<close>

theorem C5_start_kvs:
  assumes "valid_range rng"
  shows "(\<forall>e. nodeErr = Some e \<longrightarrow> errors_As nodeErr = None \<longrightarrow>
            map_of (SupervisorStartError_KVs rng supName nodeName nodeErr terminationErr)
              ''supervisor.start.node.name'' = Some (VString nodeName) \<and>
            map_of (SupervisorStartError_KVs rng supName nodeName nodeErr terminationErr)
              ''supervisor.start.node.error'' = Some (VError nodeErr)) \<and>
         (\<forall>t k v. terminationErr = Some t \<longrightarrow>
            map_of (SupervisorTerminationError_KVs rng t) k = Some v \<longrightarrow>
            map_of (SupervisorStartError_KVs rng supName nodeName nodeErr terminationErr) k = Some v) \<and>
         (nodeErr = None \<longrightarrow>
            (\<forall>K. prefix ''supervisor.start.node.'' K \<longrightarrow>
               map_of (SupervisorStartError_KVs rng supName nodeName nodeErr terminationErr) K = None))"
proof (intro conjI allI impI)
  fix e
  assume e: "nodeErr = Some e" and a: "errors_As nodeErr = None"
  have n1: "map_of (SupervisorTerminationError_KVs rng t) ''supervisor.start.node.name'' = None" for t
    by (rule termination_no_start_key) simp
  have n2: "map_of (SupervisorTerminationError_KVs rng t) ''supervisor.start.node.error'' = None" for t
    by (rule termination_no_start_key) simp
  show "map_of (SupervisorStartError_KVs rng supName nodeName nodeErr terminationErr)
              ''supervisor.start.node.name'' = Some (VString nodeName)"
    using assms e a n1
    by (simp add: SupervisorStartError_KVs_map map_add_def map_of_set_kv split: option.splits)
  show "map_of (SupervisorStartError_KVs rng supName nodeName nodeErr terminationErr)
              ''supervisor.start.node.error'' = Some (VError nodeErr)"
    using assms e a n2
    by (simp add: SupervisorStartError_KVs_map map_add_def map_of_set_kv split: option.splits)
next
  fix t k v
  assume "terminationErr = Some t" and "map_of (SupervisorTerminationError_KVs rng t) k = Some v"
  then show "map_of (SupervisorStartError_KVs rng supName nodeName nodeErr terminationErr) k = Some v"
    using assms by (simp add: SupervisorStartError_KVs_map map_add_def)
next
  fix K
  assume n: "nodeErr = None" and p: "prefix ''supervisor.start.node.'' K"
  from p have "K \<noteq> ''supervisor.name''" by auto
  then show "map_of (SupervisorStartError_KVs rng supName nodeName nodeErr terminationErr) K = None"
    using assms n termination_no_start_key [OF p, of rng]
    by (simp add: SupervisorStartError_KVs_map map_add_def map_of_set_kv split: option.splits)
qed

theorem C5_start_kvs_witness:
  "valid_range rev \<and>
   errors_As (Some (ErrorString ''boom'')) = None \<and>
   map_of (SupervisorStartError_KVs rev ''root'' ''w2'' (Some (ErrorString ''boom''))
             (Some (SupervisorTerminationError ''root'' [(''w1'', Some (ErrorString ''timeout''))] None)))
     ''supervisor.start.node.name'' = Some (VString ''w2'') \<and>
   map_of (SupervisorStartError_KVs rev ''root'' ''w2'' (Some (ErrorString ''boom''))
             (Some (SupervisorTerminationError ''root'' [(''w1'', Some (ErrorString ''timeout''))] None)))
     ''supervisor.start.node.error'' = Some (VError (Some (ErrorString ''boom''))) \<and>
   map_of (SupervisorTerminationError_KVs rev
             (SupervisorTerminationError ''root'' [(''w1'', Some (ErrorString ''timeout''))] None))
     ''supervisor.termination.node.0.name'' = Some (VString ''w1'') \<and>
   map_of (SupervisorStartError_KVs rev ''root'' ''w2'' (Some (ErrorString ''boom''))
             (Some (SupervisorTerminationError ''root'' [(''w1'', Some (ErrorString ''timeout''))] None)))
     ''supervisor.termination.node.0.name'' = Some (VString ''w1'') \<and>
   prefix ''supervisor.start.node.'' ''supervisor.start.node.name'' \<and>
   map_of (SupervisorStartError_KVs rev ''root'' ''w2'' None None)
     ''supervisor.start.node.name'' = None"
proof -
  let ?t = "SupervisorTerminationError ''root'' [(''w1'', Some (ErrorString ''timeout''))] None"
  let ?e = "ErrorString ''boom''"
  have v: "valid_range rev" by (simp add: valid_range_def)
  have a: "errors_As (Some ?e) = None" by simp
  have p: "prefix ''supervisor.start.node.'' ''supervisor.start.node.name''" by simp
  have t: "map_of (SupervisorTerminationError_KVs rev ?t)
     ''supervisor.termination.node.0.name'' = Some (VString ''w1'')"
    by code_simp
  note c = C5_start_kvs [OF v, where supName = "''root''" and nodeName = "''w2''" and
      nodeErr = "Some ?e" and terminationErr = "Some ?t"]
  note d = C5_start_kvs [OF v, where supName = "''root''" and nodeName = "''w2''" and
      nodeErr = None and terminationErr = None]
  from c [THEN conjunct1, rule_format, OF refl a]
  have s1: "map_of (SupervisorStartError_KVs rev ''root'' ''w2'' (Some ?e) (Some ?t))
       ''supervisor.start.node.name'' = Some (VString ''w2'')"
    and s2: "map_of (SupervisorStartError_KVs rev ''root'' ''w2'' (Some ?e) (Some ?t))
       ''supervisor.start.node.error'' = Some (VError (Some ?e))"
    by simp_all
  from c [THEN conjunct2, THEN conjunct1, rule_format, OF refl t]
  have s3: "map_of (SupervisorStartError_KVs rev ''root'' ''w2'' (Some ?e) (Some ?t))
       ''supervisor.termination.node.0.name'' = Some (VString ''w1'')" .
  from d [THEN conjunct2, THEN conjunct2, rule_format, OF refl p]
  have s4: "map_of (SupervisorStartError_KVs rev ''root'' ''w2'' None None)
       ''supervisor.start.node.name'' = None" .
  from v a s1 s2 t s3 p s4 show ?thesis by simp
qed

text \<open>
  C6, as stated, at a concrete input: the claim gives the keys
  \<open>supervisor.termination.node.<i>.name\<close> and \<open>supervisor.termination.node.<i>.error\<close>
  to every entry whose error does not implement \<^verbatim>\<open>ErrKVs\<close>. The only entry of this
  termination error, at position 0, holds an error built by
  \<^verbatim>\<open>fmt.Errorf("stop failed: %w", buildErr)\<close>: it has no \<^verbatim>\<open>KVs\<close> method, but
  \<^verbatim>\<open>errors.As\<close> finds the build error it wraps, and the entry is projected under
  \<open>supervisor.subtree.0.\<close> with no \<open>supervisor.termination.node.0.name\<close>.
\<close>

theorem C6_wrapped_error_counterexample:
  "\<not> implementsErrKVs (WrapError ''stop failed: '' (BuildError ''root/sub'' None)) \<and>
   errors_As (Some (WrapError ''stop failed: '' (BuildError ''root/sub'' None))) =
     Some (BuildError ''root/sub'' None) \<and>
   sorted_list_of_set (dom (map_of
      [(''sub'', Some (WrapError ''stop failed: '' (BuildError ''root/sub'' None)))])) ! 0 = ''sub'' \<and>
   map_of (SupervisorTerminationError_KVs (\<lambda>ks. ks)
             (SupervisorTerminationError ''root''
                [(''sub'', Some (WrapError ''stop failed: '' (BuildError ''root/sub'' None)))] None))
     ''supervisor.termination.node.0.name'' = None \<and>
   map_of (SupervisorTerminationError_KVs (\<lambda>ks. ks)
             (SupervisorTerminationError ''root''
                [(''sub'', Some (WrapError ''stop failed: '' (BuildError ''root/sub'' None)))] None))
     ''supervisor.subtree.0.name'' = Some (VString ''root/sub'')"
proof -
  have "map_of (SupervisorTerminationError_KVs (\<lambda>ks. ks)
             (SupervisorTerminationError ''root''
                [(''sub'', Some (WrapError ''stop failed: '' (BuildError ''root/sub'' None)))] None))
     ''supervisor.termination.node.0.name'' = None"
    by code_simp
  moreover have "map_of (SupervisorTerminationError_KVs (\<lambda>ks. ks)
             (SupervisorTerminationError ''root''
                [(''sub'', Some (WrapError ''stop failed: '' (BuildError ''root/sub'' None)))] None))
     ''supervisor.subtree.0.name'' = Some (VString ''root/sub'')"
    by code_simp
  ultimately show ?thesis by simp
qed

text \<open>
  C6, amended: whatever order the range loops take, the projection of a termination error
  has, for each entry \<open>(nodeName, err)\<close> of the node error map in whose chain
  \<^verbatim>\<open>errors.As\<close> finds no error implementing \<^verbatim>\<open>ErrKVs\<close> (a nil error is one), the
  key \<open>supervisor.termination.node.<i>.name\<close> mapped to \<open>nodeName\<close> and the key
  \<open>supervisor.termination.node.<i>.error\<close> mapped to \<open>err\<close>, where \<open>i\<close> is the
  position of \<open>nodeName\<close> in the sorted list of the node names of the map; and the key
  \<open>supervisor.termination.cleanup.error\<close> is present if and only if the resource
  cleanup error is not nil.
\<close>

theorem C6_termination_kvs:
  assumes "valid_range rng"
  shows "(\<forall>i nodeName err.
            i < length (sorted_list_of_set (dom (map_of nodeErrs))) \<longrightarrow>
            sorted_list_of_set (dom (map_of nodeErrs)) ! i = nodeName \<longrightarrow>
            map_of nodeErrs nodeName = Some err \<longrightarrow> errors_As err = None \<longrightarrow>
            map_of (SupervisorTerminationError_KVs rng
                      (SupervisorTerminationError supName nodeErrs cleanupErr))
              (''supervisor.termination.node.'' @ itoa i @ ''.name'') = Some (VString nodeName) \<and>
            map_of (SupervisorTerminationError_KVs rng
                      (SupervisorTerminationError supName nodeErrs cleanupErr))
              (''supervisor.termination.node.'' @ itoa i @ ''.error'') = Some (VError err)) \<and>
         (''supervisor.termination.cleanup.error''
            \<in> dom (map_of (SupervisorTerminationError_KVs rng
                      (SupervisorTerminationError supName nodeErrs cleanupErr)))
          \<longleftrightarrow> cleanupErr \<noteq> None)"
proof (intro conjI allI impI)
  fix i nodeName err
  assume i: "i < length (sorted_list_of_set (dom (map_of nodeErrs)))"
    and n: "sorted_list_of_set (dom (map_of nodeErrs)) ! i = nodeName"
    and e: "map_of nodeErrs nodeName = Some err" and a: "errors_As err = None"
  from i have i': "i < length (sort (keys nodeErrs))" by (simp add: sort_keys)
  from n have n': "sort (keys nodeErrs) ! i = nodeName" by (simp add: sort_keys)
  from e have x: "index_err nodeErrs nodeName = err" by (rule index_err_entry)
  with a n' have a': "errors_As (index_err nodeErrs (sort (keys nodeErrs) ! i)) = None" by simp
  from termination_node_entry [OF assms i' a', of supName cleanupErr] n' x
  show "map_of (SupervisorTerminationError_KVs rng
                      (SupervisorTerminationError supName nodeErrs cleanupErr))
              (''supervisor.termination.node.'' @ itoa i @ ''.name'') = Some (VString nodeName)"
    and "map_of (SupervisorTerminationError_KVs rng
                      (SupervisorTerminationError supName nodeErrs cleanupErr))
              (''supervisor.termination.node.'' @ itoa i @ ''.error'') = Some (VError err)"
    by simp_all
next
  show "''supervisor.termination.cleanup.error''
            \<in> dom (map_of (SupervisorTerminationError_KVs rng
                      (SupervisorTerminationError supName nodeErrs cleanupErr)))
          \<longleftrightarrow> cleanupErr \<noteq> None"
    using termination_cleanup [of rng supName nodeErrs cleanupErr]
    by (auto simp: domIff split: option.splits)
qed

theorem C6_termination_kvs_witness:
  "valid_range rev \<and>
   (1::nat) < length (sorted_list_of_set (dom (map_of
      [(''w2'', Some (ErrorString ''timeout'')), (''w1'', None)]))) \<and>
   sorted_list_of_set (dom (map_of
      [(''w2'', Some (ErrorString ''timeout'')), (''w1'', None)])) ! 1 = ''w2'' \<and>
   map_of [(''w2'', Some (ErrorString ''timeout'')), (''w1'', None)] ''w2'' =
     Some (Some (ErrorString ''timeout'')) \<and>
   errors_As (Some (ErrorString ''timeout'')) = None \<and>
   map_of (SupervisorTerminationError_KVs rev
             (SupervisorTerminationError ''root''
                [(''w2'', Some (ErrorString ''timeout'')), (''w1'', None)] (Some (ErrorString ''leak''))))
     ''supervisor.termination.node.1.name'' = Some (VString ''w2'') \<and>
   map_of (SupervisorTerminationError_KVs rev
             (SupervisorTerminationError ''root''
                [(''w2'', Some (ErrorString ''timeout'')), (''w1'', None)] (Some (ErrorString ''leak''))))
     ''supervisor.termination.node.1.error'' = Some (VError (Some (ErrorString ''timeout''))) \<and>
   ''supervisor.termination.cleanup.error''
     \<in> dom (map_of (SupervisorTerminationError_KVs rev
             (SupervisorTerminationError ''root''
                [(''w2'', Some (ErrorString ''timeout'')), (''w1'', None)] (Some (ErrorString ''leak'')))))"
proof -
  let ?m = "[(''w2'', Some (ErrorString ''timeout'')), (''w1'', None)]"
  let ?t = "SupervisorTerminationError ''root'' ?m (Some (ErrorString ''leak''))"
  have v: "valid_range rev" by (simp add: valid_range_def)
  have s: "sorted_list_of_set (dom (map_of ?m)) = [''w1'', ''w2'']"
    unfolding sort_keys [symmetric] by code_simp
  have l: "(1::nat) < length (sorted_list_of_set (dom (map_of ?m)))" by (simp add: s)
  have n: "sorted_list_of_set (dom (map_of ?m)) ! 1 = ''w2''" by (simp add: s)
  have e: "map_of ?m ''w2'' = Some (Some (ErrorString ''timeout''))" by simp
  have a: "errors_As (Some (ErrorString ''timeout'')) = None" by simp
  note c = C6_termination_kvs [OF v, where nodeErrs = ?m and supName = "''root''" and
      cleanupErr = "Some (ErrorString ''leak'')"]
  from c [THEN conjunct1, rule_format, OF l n e a]
  have k1: "map_of (SupervisorTerminationError_KVs rev ?t)
       ''supervisor.termination.node.1.name'' = Some (VString ''w2'')"
    and k2: "map_of (SupervisorTerminationError_KVs rev ?t)
       ''supervisor.termination.node.1.error'' = Some (VError (Some (ErrorString ''timeout'')))"
    by (simp_all add: itoa_Suc_0)
  from c [THEN conjunct2]
  have k3: "''supervisor.termination.cleanup.error''
     \<in> dom (map_of (SupervisorTerminationError_KVs rev ?t))"
    by simp
  from v l n e a k1 k2 k3 show ?thesis by simp
qed

section \<open>Properties of the state loop\<close>

lemma reply_select_db [simp]: "out_db (reply_select e db tr a who) = db"
  by (simp add: reply_select_def)

lemma stateLoop_step_invariant:
  assumes "dom (runningPlans db) \<subseteq> dom (plans db)"
  shows "dom (runningPlans (out_db (stateLoop_step db e ev))) \<subseteq>
         dom (plans (out_db (stateLoop_step db e ev)))"
proof (cases ev)
  case CtxDone
  with assms show ?thesis by simp
next
  case (Closed c)
  with assms show ?thesis by simp
next
  case (InsertMsg msg)
  with assms show ?thesis by (auto split: option.splits)
next
  case (RmMsg n)
  with assms show ?thesis by (auto split: option.splits)
next
  case (StartMsg n)
  with assms show ?thesis by (auto split: option.splits sum.splits)
next
  case (StopMsg n)
  with assms show ?thesis by (auto simp: Let_def split: option.splits)
next
  case (RegisterMsg n)
  with assms show ?thesis by (auto simp: Let_def split: option.splits)
qed

lemma stateLoop_Cons_db:
  "out_db (stateLoop db (x # rest)) =
     (if out_control (stateLoop_step db (snd x) (fst x)) = Continue
      then out_db (stateLoop (out_db (stateLoop_step db (snd x) (fst x))) rest)
      else out_db (stateLoop_step db (snd x) (fst x)))"
  by (simp add: Let_def split: control.splits)

text \<open>
  C2: for every stop message whose plan is registered in \<open>plans\<close> and absent from
  \<open>runningPlans\<close>, once the reply \<open>plan is not running\<close> has been sent (the select
  took the send), the branch does not continue the loop: its next action is the call of
  the nil stop function, the state is untouched, and the loop ends there in a panic
  whatever events follow.
\<close>

theorem C2_stop_not_running_falls_through:
  assumes "plans db n = Some p" and "runningPlans db n = None" and "sendWins e"
  shows "stateLoop_step db e (StopMsg n) =
           \<lparr>out_db = db,
            out_trace = [Reply (Some (ErrorString ''plan is not running'')), CallStopPlan None],
            out_control = Panic\<rparr> \<and>
         stateLoop db ((StopMsg n, e) # rest) = stateLoop_step db e (StopMsg n) \<and>
         out_control (stateLoop db ((StopMsg n, e) # rest)) \<noteq> Continue"
  using assms by (simp add: Let_def)

theorem C2_stop_not_running_falls_through_witness:
  "plans \<lparr>saboteurs = Map.empty,
          plans = [''p'' \<mapsto> \<lparr>plan_name = ''p'', plan_duration = 5, plan_period = 1,
                              plan_maxAttempts = 3, plan_node = ''sub''\<rparr>],
          runningPlans = Map.empty\<rparr> ''p'' =
     Some \<lparr>plan_name = ''p'', plan_duration = 5, plan_period = 1, plan_maxAttempts = 3,
           plan_node = ''sub''\<rparr> \<and>
   runningPlans \<lparr>saboteurs = Map.empty,
          plans = [''p'' \<mapsto> \<lparr>plan_name = ''p'', plan_duration = 5, plan_period = 1,
                              plan_maxAttempts = 3, plan_node = ''sub''\<rparr>],
          runningPlans = Map.empty\<rparr> ''p'' = None \<and>
   sendWins \<lparr>sendWins = True, stopPlanResult = None, spawnResult = Inr (StopFn 0)\<rparr> \<and>
   out_trace (stateLoop
      \<lparr>saboteurs = Map.empty,
       plans = [''p'' \<mapsto> \<lparr>plan_name = ''p'', plan_duration = 5, plan_period = 1,
                           plan_maxAttempts = 3, plan_node = ''sub''\<rparr>],
       runningPlans = Map.empty\<rparr>
      [(StopMsg ''p'', \<lparr>sendWins = True, stopPlanResult = None, spawnResult = Inr (StopFn 0)\<rparr>),
       (StartMsg ''p'', \<lparr>sendWins = True, stopPlanResult = None, spawnResult = Inr (StopFn 0)\<rparr>)]) =
     [Reply (Some (ErrorString ''plan is not running'')), CallStopPlan None] \<and>
   out_control (stateLoop
      \<lparr>saboteurs = Map.empty,
       plans = [''p'' \<mapsto> \<lparr>plan_name = ''p'', plan_duration = 5, plan_period = 1,
                           plan_maxAttempts = 3, plan_node = ''sub''\<rparr>],
       runningPlans = Map.empty\<rparr>
      [(StopMsg ''p'', \<lparr>sendWins = True, stopPlanResult = None, spawnResult = Inr (StopFn 0)\<rparr>),
       (StartMsg ''p'', \<lparr>sendWins = True, stopPlanResult = None, spawnResult = Inr (StopFn 0)\<rparr>)]) =
     Panic"
proof -
  let ?p = "\<lparr>plan_name = ''p'', plan_duration = 5, plan_period = 1, plan_maxAttempts = 3,
             plan_node = ''sub''\<rparr>"
  let ?db = "\<lparr>saboteurs = Map.empty, plans = [''p'' \<mapsto> ?p], runningPlans = Map.empty\<rparr>"
  let ?e = "\<lparr>sendWins = True, stopPlanResult = None, spawnResult = Inr (StopFn 0)\<rparr>"
  have a: "plans ?db ''p'' = Some ?p" by simp
  have b: "runningPlans ?db ''p'' = None" by simp
  have c: "sendWins ?e" by simp
  from C2_stop_not_running_falls_through [OF a b c, of "[(StartMsg ''p'', ?e)]"]
  have "stateLoop ?db [(StopMsg ''p'', ?e), (StartMsg ''p'', ?e)] =
          \<lparr>out_db = ?db,
           out_trace = [Reply (Some (ErrorString ''plan is not running'')), CallStopPlan None],
           out_control = Panic\<rparr>"
    by (simp only:)
  then have "out_trace (stateLoop ?db [(StopMsg ''p'', ?e), (StartMsg ''p'', ?e)]) =
          [Reply (Some (ErrorString ''plan is not running'')), CallStopPlan None]"
    and "out_control (stateLoop ?db [(StopMsg ''p'', ?e), (StartMsg ''p'', ?e)]) = Panic"
    by (simp_all only: outcome.simps)
  with a b c show ?thesis by (simp only: simp_thms)
qed

text \<open>
  C3, as stated, at a concrete input: the claim says that a remove message for a running
  plan whose stop function fails leaves the plan in \<open>runningPlans\<close> and removes it from
  \<open>plans\<close>. Plan \<open>p\<close> is registered and running and its stop function fails with
  \<open>boom\<close>: after the remove message the plan is still in \<open>runningPlans\<close> and still in
  \<open>plans\<close>, and the client is told that the plan could not be stopped.
\<close>

theorem C3_remove_failed_stop_counterexample:
  "runningPlans (out_db (stateLoop_step
      \<lparr>saboteurs = Map.empty,
       plans = [''p'' \<mapsto> \<lparr>plan_name = ''p'', plan_duration = 5, plan_period = 1,
                           plan_maxAttempts = 3, plan_node = ''sub''\<rparr>],
       runningPlans = [''p'' \<mapsto> StopFn 0]\<rparr>
      \<lparr>sendWins = True, stopPlanResult = Some (ErrorString ''boom''),
       spawnResult = Inr (StopFn 1)\<rparr>
      (RmMsg ''p''))) ''p'' = Some (StopFn 0) \<and>
   plans (out_db (stateLoop_step
      \<lparr>saboteurs = Map.empty,
       plans = [''p'' \<mapsto> \<lparr>plan_name = ''p'', plan_duration = 5, plan_period = 1,
                           plan_maxAttempts = 3, plan_node = ''sub''\<rparr>],
       runningPlans = [''p'' \<mapsto> StopFn 0]\<rparr>
      \<lparr>sendWins = True, stopPlanResult = Some (ErrorString ''boom''),
       spawnResult = Inr (StopFn 1)\<rparr>
      (RmMsg ''p''))) ''p'' =
     Some \<lparr>plan_name = ''p'', plan_duration = 5, plan_period = 1, plan_maxAttempts = 3,
           plan_node = ''sub''\<rparr> \<and>
   out_trace (stateLoop_step
      \<lparr>saboteurs = Map.empty,
       plans = [''p'' \<mapsto> \<lparr>plan_name = ''p'', plan_duration = 5, plan_period = 1,
                           plan_maxAttempts = 3, plan_node = ''sub''\<rparr>],
       runningPlans = [''p'' \<mapsto> StopFn 0]\<rparr>
      \<lparr>sendWins = True, stopPlanResult = Some (ErrorString ''boom''),
       spawnResult = Inr (StopFn 1)\<rparr>
      (RmMsg ''p'')) =
     [CallStopPlan (Some (StopFn 0)),
      Reply (Some (WrapError ''plan could not be stopped: '' (ErrorString ''boom'')))]"
  by (simp add: reply_select_def)

text \<open>
  C3, amended: when the loop handles a remove message for a plan that is in
  \<open>runningPlans\<close> and the call of its stop function returns a non-nil error, the state
  is left as it was: the plan stays in \<open>runningPlans\<close> and, if it was registered, in
  \<open>plans\<close>; the two maps are as consistent as before. For a registered plan the stop
  function is called once and, when the select takes the send, the reply is the error
  \<open>plan could not be stopped\<close> wrapping the stop error, and the loop goes on.
\<close>

theorem C3_remove_failed_stop_keeps_state:
  assumes "runningPlans db n = Some stopPlan" and "stopPlanResult e = Some err"
  shows "out_db (stateLoop_step db e (RmMsg n)) = db \<and>
         runningPlans (out_db (stateLoop_step db e (RmMsg n))) n = Some stopPlan \<and>
         plans (out_db (stateLoop_step db e (RmMsg n))) n = plans db n \<and>
         (plans db n \<noteq> None \<and> sendWins e \<longrightarrow>
            out_trace (stateLoop_step db e (RmMsg n)) =
              [CallStopPlan (Some stopPlan),
               Reply (Some (WrapError ''plan could not be stopped: '' err))] \<and>
            out_control (stateLoop_step db e (RmMsg n)) = Continue)"
  using assms by (auto simp: reply_select_def split: option.splits)

theorem C3_remove_failed_stop_keeps_state_witness:
  "runningPlans \<lparr>saboteurs = Map.empty,
       plans = [''p'' \<mapsto> \<lparr>plan_name = ''p'', plan_duration = 5, plan_period = 1,
                           plan_maxAttempts = 3, plan_node = ''sub''\<rparr>],
       runningPlans = [''p'' \<mapsto> StopFn 0]\<rparr> ''p'' = Some (StopFn 0) \<and>
   stopPlanResult \<lparr>sendWins = True, stopPlanResult = Some (ErrorString ''boom''),
       spawnResult = Inr (StopFn 1)\<rparr> = Some (ErrorString ''boom'') \<and>
   out_db (stateLoop_step
      \<lparr>saboteurs = Map.empty,
       plans = [''p'' \<mapsto> \<lparr>plan_name = ''p'', plan_duration = 5, plan_period = 1,
                           plan_maxAttempts = 3, plan_node = ''sub''\<rparr>],
       runningPlans = [''p'' \<mapsto> StopFn 0]\<rparr>
      \<lparr>sendWins = True, stopPlanResult = Some (ErrorString ''boom''),
       spawnResult = Inr (StopFn 1)\<rparr>
      (RmMsg ''p'')) =
     \<lparr>saboteurs = Map.empty,
       plans = [''p'' \<mapsto> \<lparr>plan_name = ''p'', plan_duration = 5, plan_period = 1,
                           plan_maxAttempts = 3, plan_node = ''sub''\<rparr>],
       runningPlans = [''p'' \<mapsto> StopFn 0]\<rparr> \<and>
   out_control (stateLoop_step
      \<lparr>saboteurs = Map.empty,
       plans = [''p'' \<mapsto> \<lparr>plan_name = ''p'', plan_duration = 5, plan_period = 1,
                           plan_maxAttempts = 3, plan_node = ''sub''\<rparr>],
       runningPlans = [''p'' \<mapsto> StopFn 0]\<rparr>
      \<lparr>sendWins = True, stopPlanResult = Some (ErrorString ''boom''),
       spawnResult = Inr (StopFn 1)\<rparr>
      (RmMsg ''p'')) = Continue"
proof -
  let ?p = "\<lparr>plan_name = ''p'', plan_duration = 5, plan_period = 1, plan_maxAttempts = 3,
             plan_node = ''sub''\<rparr>"
  let ?db = "\<lparr>saboteurs = Map.empty, plans = [''p'' \<mapsto> ?p], runningPlans = [''p'' \<mapsto> StopFn 0]\<rparr>"
  let ?e = "\<lparr>sendWins = True, stopPlanResult = Some (ErrorString ''boom''),
             spawnResult = Inr (StopFn 1)\<rparr>"
  have a: "runningPlans ?db ''p'' = Some (StopFn 0)" by simp
  have b: "stopPlanResult ?e = Some (ErrorString ''boom'')" by simp
  have c: "plans ?db ''p'' \<noteq> None \<and> sendWins ?e" by simp
  note t = C3_remove_failed_stop_keeps_state [OF a b]
  from t have d: "out_db (stateLoop_step ?db ?e (RmMsg ''p'')) = ?db" by (rule conjunct1)
  from t [THEN conjunct2, THEN conjunct2, THEN conjunct2, rule_format, OF c]
  have f: "out_control (stateLoop_step ?db ?e (RmMsg ''p'')) = Continue" by (rule conjunct2)
  from a b d f show ?thesis by (simp only: simp_thms)
qed

text \<open>
  C9: the loop keeps the key set of \<open>runningPlans\<close> inside the key set of \<open>plans\<close>. If
  every running plan is registered when the loop starts, then after any sequence of
  events (insert, remove, start, stop and register messages, closed channels, the
  cancellation), whatever the selects choose and whatever the stop functions and the
  spawner return, every running plan of the state the loop has reached is registered,
  also when the loop has returned or panicked.
\<close>

theorem C9_running_plans_are_registered:
  assumes "dom (runningPlans db) \<subseteq> dom (plans db)"
  shows "dom (runningPlans (out_db (stateLoop db evs))) \<subseteq> dom (plans (out_db (stateLoop db evs)))"
  using assms
proof (induction evs arbitrary: db)
  case Nil
  then show ?case by simp
next
  case (Cons x rest)
  let ?r = "stateLoop_step db (snd x) (fst x)"
  from Cons.prems have step: "dom (runningPlans (out_db ?r)) \<subseteq> dom (plans (out_db ?r))"
    by (rule stateLoop_step_invariant)
  show ?case
  proof (cases "out_control ?r = Continue")
    case True
    with Cons.IH [OF step] show ?thesis by (simp add: stateLoop_Cons_db del: stateLoop.simps)
  next
    case False
    with step show ?thesis by (simp add: stateLoop_Cons_db del: stateLoop.simps)
  qed
qed

theorem C9_running_plans_are_registered_witness:
  "dom (runningPlans \<lparr>saboteurs = Map.empty, plans = Map.empty, runningPlans = Map.empty\<rparr>) \<subseteq>
     dom (plans \<lparr>saboteurs = Map.empty, plans = Map.empty, runningPlans = Map.empty\<rparr>) \<and>
   runningPlans (out_db (stateLoop
      \<lparr>saboteurs = Map.empty, plans = Map.empty, runningPlans = Map.empty\<rparr>
      [(RegisterMsg ''sub'',
          \<lparr>sendWins = True, stopPlanResult = None, spawnResult = Inr (StopFn 7)\<rparr>),
       (InsertMsg \<lparr>msg_name = ''p'', msg_subtreeName = ''sub'', msg_duration = 5,
                   msg_period = 1, msg_attempts = 3\<rparr>,
          \<lparr>sendWins = True, stopPlanResult = None, spawnResult = Inr (StopFn 7)\<rparr>),
       (StartMsg ''p'',
          \<lparr>sendWins = True, stopPlanResult = None, spawnResult = Inr (StopFn 7)\<rparr>)])) ''p'' =
     Some (StopFn 7) \<and>
   dom (runningPlans (out_db (stateLoop
      \<lparr>saboteurs = Map.empty, plans = Map.empty, runningPlans = Map.empty\<rparr>
      [(RegisterMsg ''sub'',
          \<lparr>sendWins = True, stopPlanResult = None, spawnResult = Inr (StopFn 7)\<rparr>),
       (InsertMsg \<lparr>msg_name = ''p'', msg_subtreeName = ''sub'', msg_duration = 5,
                   msg_period = 1, msg_attempts = 3\<rparr>,
          \<lparr>sendWins = True, stopPlanResult = None, spawnResult = Inr (StopFn 7)\<rparr>),
       (StartMsg ''p'',
          \<lparr>sendWins = True, stopPlanResult = None, spawnResult = Inr (StopFn 7)\<rparr>)]))) \<subseteq>
   dom (plans (out_db (stateLoop
      \<lparr>saboteurs = Map.empty, plans = Map.empty, runningPlans = Map.empty\<rparr>
      [(RegisterMsg ''sub'',
          \<lparr>sendWins = True, stopPlanResult = None, spawnResult = Inr (StopFn 7)\<rparr>),
       (InsertMsg \<lparr>msg_name = ''p'', msg_subtreeName = ''sub'', msg_duration = 5,
                   msg_period = 1, msg_attempts = 3\<rparr>,
          \<lparr>sendWins = True, stopPlanResult = None, spawnResult = Inr (StopFn 7)\<rparr>),
       (StartMsg ''p'',
          \<lparr>sendWins = True, stopPlanResult = None, spawnResult = Inr (StopFn 7)\<rparr>)])))"
proof -
  let ?db = "\<lparr>saboteurs = Map.empty, plans = Map.empty, runningPlans = Map.empty\<rparr>"
  let ?e = "\<lparr>sendWins = True, stopPlanResult = None, spawnResult = Inr (StopFn 7)\<rparr>"
  let ?evs = "[(RegisterMsg ''sub'', ?e),
       (InsertMsg \<lparr>msg_name = ''p'', msg_subtreeName = ''sub'', msg_duration = 5,
                   msg_period = 1, msg_attempts = 3\<rparr>, ?e),
       (StartMsg ''p'', ?e)]"
  have a: "dom (runningPlans ?db) \<subseteq> dom (plans ?db)" by simp
  have b: "runningPlans (out_db (stateLoop ?db ?evs)) ''p'' = Some (StopFn 7)"
    by (simp add: reply_select_def Let_def)
  from a b C9_running_plans_are_registered [OF a, of ?evs] show ?thesis
    by (simp only: simp_thms)
qed

text \<open>
  C10: when the loop, in a state where every running plan is registered, receives a start
  message for a plan that is already in \<open>runningPlans\<close>, it does not call
  \<^verbatim>\<open>spawner.Spawn\<close> and leaves the state, \<open>plans\<close> and \<open>runningPlans\<close> with it,
  unchanged; when the select takes the send, it replies with the error
  \<open>plan already running\<close> and nothing else and goes on, and when the context is done
  first it returns without a reply.
\<close>

theorem C10_start_running_plan:
  assumes "dom (runningPlans db) \<subseteq> dom (plans db)" and "runningPlans db n = Some f"
  shows "out_db (stateLoop_step db e (StartMsg n)) = db \<and>
         plans (out_db (stateLoop_step db e (StartMsg n))) = plans db \<and>
         runningPlans (out_db (stateLoop_step db e (StartMsg n))) = runningPlans db \<and>
         (\<forall>p. CallSpawn p \<notin> set (out_trace (stateLoop_step db e (StartMsg n)))) \<and>
         (sendWins e \<longrightarrow>
            out_trace (stateLoop_step db e (StartMsg n)) =
              [Reply (Some (ErrorString ''plan already running''))] \<and>
            out_control (stateLoop_step db e (StartMsg n)) = Continue) \<and>
         (\<not> sendWins e \<longrightarrow>
            out_trace (stateLoop_step db e (StartMsg n)) = [] \<and>
            out_control (stateLoop_step db e (StartMsg n)) =
              Return (Some (ErrorString ''terminated while waiting on StartPlan result ack'')))"
proof -
  from assms have "n \<in> dom (plans db)" by auto
  then obtain p where "plans db n = Some p" by auto
  with assms(2) show ?thesis
    by (simp add: reply_select_def)
qed

theorem C10_start_running_plan_witness:
  "dom (runningPlans \<lparr>saboteurs = Map.empty,
       plans = [''p'' \<mapsto> \<lparr>plan_name = ''p'', plan_duration = 5, plan_period = 1,
                           plan_maxAttempts = 3, plan_node = ''sub''\<rparr>],
       runningPlans = [''p'' \<mapsto> StopFn 0]\<rparr>) \<subseteq>
   dom (plans \<lparr>saboteurs = Map.empty,
       plans = [''p'' \<mapsto> \<lparr>plan_name = ''p'', plan_duration = 5, plan_period = 1,
                           plan_maxAttempts = 3, plan_node = ''sub''\<rparr>],
       runningPlans = [''p'' \<mapsto> StopFn 0]\<rparr>) \<and>
   runningPlans \<lparr>saboteurs = Map.empty,
       plans = [''p'' \<mapsto> \<lparr>plan_name = ''p'', plan_duration = 5, plan_period = 1,
                           plan_maxAttempts = 3, plan_node = ''sub''\<rparr>],
       runningPlans = [''p'' \<mapsto> StopFn 0]\<rparr> ''p'' = Some (StopFn 0) \<and>
   sendWins \<lparr>sendWins = True, stopPlanResult = None, spawnResult = Inr (StopFn 1)\<rparr> \<and>
   out_trace (stateLoop_step
      \<lparr>saboteurs = Map.empty,
       plans = [''p'' \<mapsto> \<lparr>plan_name = ''p'', plan_duration = 5, plan_period = 1,
                           plan_maxAttempts = 3, plan_node = ''sub''\<rparr>],
       runningPlans = [''p'' \<mapsto> StopFn 0]\<rparr>
      \<lparr>sendWins = True, stopPlanResult = None, spawnResult = Inr (StopFn 1)\<rparr>
      (StartMsg ''p'')) = [Reply (Some (ErrorString ''plan already running''))] \<and>
   out_db (stateLoop_step
      \<lparr>saboteurs = Map.empty,
       plans = [''p'' \<mapsto> \<lparr>plan_name = ''p'', plan_duration = 5, plan_period = 1,
                           plan_maxAttempts = 3, plan_node = ''sub''\<rparr>],
       runningPlans = [''p'' \<mapsto> StopFn 0]\<rparr>
      \<lparr>sendWins = True, stopPlanResult = None, spawnResult = Inr (StopFn 1)\<rparr>
      (StartMsg ''p'')) =
     \<lparr>saboteurs = Map.empty,
       plans = [''p'' \<mapsto> \<lparr>plan_name = ''p'', plan_duration = 5, plan_period = 1,
                           plan_maxAttempts = 3, plan_node = ''sub''\<rparr>],
       runningPlans = [''p'' \<mapsto> StopFn 0]\<rparr>"
proof -
  let ?p = "\<lparr>plan_name = ''p'', plan_duration = 5, plan_period = 1, plan_maxAttempts = 3,
             plan_node = ''sub''\<rparr>"
  let ?db = "\<lparr>saboteurs = Map.empty, plans = [''p'' \<mapsto> ?p], runningPlans = [''p'' \<mapsto> StopFn 0]\<rparr>"
  let ?e = "\<lparr>sendWins = True, stopPlanResult = None, spawnResult = Inr (StopFn 1)\<rparr>"
  have a: "dom (runningPlans ?db) \<subseteq> dom (plans ?db)" by simp
  have b: "runningPlans ?db ''p'' = Some (StopFn 0)" by simp
  have c: "sendWins ?e" by simp
  note t = C10_start_running_plan [OF a b, of ?e]
  from t have d: "out_db (stateLoop_step ?db ?e (StartMsg ''p'')) = ?db" by (rule conjunct1)
  from t [THEN conjunct2, THEN conjunct2, THEN conjunct2, THEN conjunct2, THEN conjunct1,
      rule_format, OF c]
  have f: "out_trace (stateLoop_step ?db ?e (StartMsg ''p'')) =
             [Reply (Some (ErrorString ''plan already running''))]"
    by (rule conjunct1)
  from a b c f d show ?thesis by (simp only: simp_thms)
qed

end
